theory Spec2Isabelle
  imports Main "HOL-Library.Multiset"
begin

section \<open>Python strings\<close>

text \<open>
  The service is \<^verbatim>\<open>FASTAPI/python/pdf_service.py\<close>. A Python \<^verbatim>\<open>str\<close> is a sequence of
  code points and \<^verbatim>\<open>len\<close> counts them. A \<^typ>\<open>string\<close> here is the list of the code
  points of a Python string, each \<^typ>\<open>char\<close> standing for the code point of the same
  number, U+0000 to U+00FF. The string methods below are the CPython ones on that range.
\<close>

text \<open>\<^verbatim>\<open>str.isspace\<close> on one code point: the characters that \<^verbatim>\<open>str.strip()\<close> removes.\<close>

definition is_space :: "char \<Rightarrow> bool" where
  "is_space c =
     (let n = (of_char c :: nat)
      in (9 \<le> n \<and> n \<le> 13) \<or> (28 \<le> n \<and> n \<le> 31) \<or> n = 32 \<or> n = 133 \<or> n = 160)"

text \<open>\<^verbatim>\<open>s.strip()\<close>: leading and trailing whitespace removed.\<close>

definition strip :: "string \<Rightarrow> string" where
  "strip s = rev (dropWhile is_space (rev (dropWhile is_space s)))"

text \<open>\<^verbatim>\<open>s.lower()\<close>: A to Z and the capital letters U+00C0 to U+00DE (but U+00D7) move up by 32.\<close>

definition lower_char :: "char \<Rightarrow> char" where
  "lower_char c =
     (let n = (of_char c :: nat)
      in if (65 \<le> n \<and> n \<le> 90) \<or> (192 \<le> n \<and> n \<le> 222 \<and> n \<noteq> 215)
         then char_of (n + 32) else c)"

definition lower :: "string \<Rightarrow> string" where
  "lower s = map lower_char s"

text \<open>\<^verbatim>\<open>s.endswith(suffix)\<close>.\<close>

definition endswith :: "string \<Rightarrow> string \<Rightarrow> bool" where
  "endswith s suffix =
     (length suffix \<le> length s \<and> drop (length s - length suffix) s = suffix)"

text \<open>\<^verbatim>\<open>sep.join(xs)\<close>.\<close>

fun join :: "string \<Rightarrow> string list \<Rightarrow> string" where
  "join sep [] = []"
| "join sep [x] = x"
| "join sep (x # y # ys) = x @ sep @ join sep (y # ys)"

text \<open>
  \<^verbatim>\<open>int(s)\<close> on a string, base 10. CPython first maps every code point from 127 on to a
  blank when it is whitespace and to \<^verbatim>\<open>?\<close> otherwise (there is no decimal digit beyond
  ASCII below U+0100), then skips C-locale blanks on both sides, reads an optional sign and
  a run of digits in which single underscores may separate digits. \<open>None\<close> is the
  \<^verbatim>\<open>ValueError\<close>.
\<close>

definition c_isspace :: "char \<Rightarrow> bool" where
  "c_isspace c = (let n = (of_char c :: nat) in (9 \<le> n \<and> n \<le> 13) \<or> n = 32)"

definition is_digit :: "char \<Rightarrow> bool" where
  "is_digit c = (let n = (of_char c :: nat) in 48 \<le> n \<and> n \<le> 57)"

definition to_ascii :: "char \<Rightarrow> char" where
  "to_ascii c =
     (if (of_char c :: nat) < 127 then c
      else if is_space c then CHR '' '' else CHR ''?'')"

fun no_double_underscore :: "string \<Rightarrow> bool" where
  "no_double_underscore (a # b # cs) =
     (\<not> (a = CHR ''_'' \<and> b = CHR ''_'') \<and> no_double_underscore (b # cs))"
| "no_double_underscore cs = True"

definition digits_value :: "string \<Rightarrow> int" where
  "digits_value ds = foldl (\<lambda>a c. 10 * a + (int (of_char c) - 48)) 0 (filter is_digit ds)"

definition py_int :: "string \<Rightarrow> int option" where
  "py_int s =
     (let t = dropWhile c_isspace (map to_ascii s);
          neg = (t \<noteq> [] \<and> hd t = CHR ''-'');
          u = (if t \<noteq> [] \<and> (hd t = CHR ''+'' \<or> hd t = CHR ''-'') then tl t else t);
          body = takeWhile (\<lambda>c. is_digit c \<or> c = CHR ''_'') u;
          rest = dropWhile (\<lambda>c. is_digit c \<or> c = CHR ''_'') u
      in if body \<noteq> [] \<and> is_digit (hd body) \<and> is_digit (last body)
            \<and> no_double_underscore body \<and> list_all c_isspace rest
         then Some (if neg then - digits_value body else digits_value body)
         else None)"

section \<open>The page classifier\<close>

text \<open>
  The test of line 146, \<^verbatim>\<open>len(t.strip()) < 20\<close>, decides which pages go to OCR;
  \<open>classify\<close> names its two outcomes, and \<open>pages_needing_ocr\<close> is the list comprehension
  of that line.
\<close>

datatype classification = Sufficient | NeedsOcr

definition classify :: "string \<Rightarrow> classification" where
  "classify t = (if length (strip t) < 20 then NeedsOcr else Sufficient)"

definition pages_needing_ocr :: "string list \<Rightarrow> nat list" where
  "pages_needing_ocr extracted_texts =
     map fst (filter (\<lambda>(i, t). length (strip t) < 20) (enumerate 0 extracted_texts))"

section \<open>External processes and files\<close>

text \<open>
  What \<^verbatim>\<open>subprocess.run\<close> can do: raise \<^verbatim>\<open>TimeoutExpired\<close>, raise another exception
  (its \<^verbatim>\<open>str\<close> is kept), or return a completed process, of which the model keeps the
  return code and \<^verbatim>\<open>stdout\<close>.
\<close>

datatype run_result = TimeoutExpired | OtherException string | CompletedProcess int string

text \<open>
  \<^verbatim>\<open>Path(p).stem\<close>. The images of one request all lie in the one fresh directory of
  \<^verbatim>\<open>tempfile.mkdtemp()\<close>, so an image path is modelled by its file name, the only part
  \<^verbatim>\<open>stem\<close> reads.
\<close>

definition path_stem :: "string \<Rightarrow> string" where
  "path_stem name =
     (if CHR ''.'' \<in> set name
      then (let after = length (takeWhile (\<lambda>c. c \<noteq> CHR ''.'') (rev name));
                i = length name - after - 1
            in if 0 < i \<and> 0 < after then take i name else name)
      else name)"

text \<open>\<^verbatim>\<open>s.split("-")[-1]\<close>: what follows the last hyphen, all of \<open>s\<close> when it has none.\<close>

definition last_field :: "string \<Rightarrow> string" where
  "last_field s = rev (takeWhile (\<lambda>c. c \<noteq> CHR ''-'') (rev s))"

text \<open>\<^verbatim>\<open>int(Path(p).stem.split("-")[-1])\<close>, the expression of lines 75 and 141.\<close>

definition page_no :: "string \<Rightarrow> int option" where
  "page_no p = py_int (last_field (path_stem p))"

text \<open>\<^verbatim>\<open>Path(output_dir).glob("page-*.jpg")\<close> on one file name.\<close>

definition glob_match :: "string \<Rightarrow> bool" where
  "glob_match name =
     (9 \<le> length name \<and> take 5 name = ''page-'' \<and> endswith name ''.jpg'')"

datatype error = HTTPException nat string | ValueError | IndexError

section \<open>The world of one request\<close>

text \<open>
  \<^verbatim>\<open>page.extract_text()\<close> raises, returns \<^verbatim>\<open>None\<close> or returns a string.
\<close>

datatype extract_outcome = Raises | ReturnsNone | Returns string

text \<open>
  Everything outside the handler that one request meets: the upload's file name, what
  \<^verbatim>\<open>PdfReader\<close> does (\<open>Inl\<close> the message of the exception it raises, \<open>Inr\<close> the pages),
  what \<^verbatim>\<open>pdftoppm\<close> does at a resolution, the file names in the output directory
  afterwards (in the order \<^verbatim>\<open>glob\<close> yields them), what
  \<^verbatim>\<open>tesseract\<close> does on an image under a timeout, and when the task of each page
  completes (\<^verbatim>\<open>as_completed\<close> yields the futures by completion time, so every
  \<open>completion_time\<close> gives one order of completion and every order comes from one).

  Not modelled: the temporary file and directory (\<^verbatim>\<open>NamedTemporaryFile\<close>, \<^verbatim>\<open>mkdtemp\<close>) are
  taken to be created without error, \<^verbatim>\<open>reader.pages\<close> is taken to be the list of pages once
  \<^verbatim>\<open>PdfReader\<close> has returned, and the exceptions of \<^verbatim>\<open>subprocess.run\<close> are instances of
  \<^verbatim>\<open>Exception\<close>. The output of \<^verbatim>\<open>print\<close> is left out.
\<close>

record world =
  filename :: string
  reader :: "string + extract_outcome list"
  pdftoppm :: "nat \<Rightarrow> run_result"
  output_files :: "string list"
  tesseract :: "string \<Rightarrow> nat \<Rightarrow> run_result"
  completion_time :: "nat \<Rightarrow> nat"


section \<open>The two adapters\<close>

text \<open>
  \<^verbatim>\<open>convert_pdf_to_images\<close>, lines 48 to 76, with its \<^verbatim>\<open>dpi\<close>. With \<^verbatim>\<open>check=True\<close> a return
  code other than 0 raises \<^verbatim>\<open>CalledProcessError\<close> inside the \<^verbatim>\<open>try\<close>, and every exception
  there gives \<open>[]\<close>. \<^verbatim>\<open>sorted\<close> computes every key first and is stable; a key that is no
  integer raises \<^verbatim>\<open>ValueError\<close>, outside the \<^verbatim>\<open>try\<close>.
\<close>

definition convert_pdf_to_images :: "world \<Rightarrow> nat \<Rightarrow> error + string list" where
  "convert_pdf_to_images w dpi =
     (case pdftoppm w dpi of
        CompletedProcess rc out \<Rightarrow>
          if rc \<noteq> 0 then Inr []
          else (case those (map (\<lambda>p. map_option (\<lambda>k. (k, p)) (page_no p))
                             (filter glob_match (output_files w))) of
                  None \<Rightarrow> Inl ValueError
                | Some keyed \<Rightarrow> Inr (map snd (sort_key fst keyed)))
      | _ \<Rightarrow> Inr [])"

text \<open>
  \<^verbatim>\<open>ocr_image\<close>, lines 81 to 98. The return code of \<^verbatim>\<open>tesseract\<close> is not looked at
  (\<^verbatim>\<open>check\<close> is not set).
\<close>

definition ocr_image :: "world \<Rightarrow> string \<Rightarrow> nat \<Rightarrow> string" where
  "ocr_image w image_path timeout_sec =
     (case tesseract w image_path timeout_sec of
        CompletedProcess rc out \<Rightarrow>
          (let text = strip out in if text \<noteq> [] then text else ''[OCR EMPTY]'')
      | TimeoutExpired \<Rightarrow> ''[OCR TIMEOUT]''
      | OtherException e \<Rightarrow> ''[OCR ERROR] '' @ e)"

section \<open>The request\<close>

text \<open>One entry of \<^verbatim>\<open>pages\<close>; \<open>page_text\<close> is its key \<^verbatim>\<open>"text"\<close>.\<close>

record page_entry =
  page_number :: nat
  page_text :: string

record response =
  status :: string
  page_count :: nat
  ocr_used :: bool
  pages :: "page_entry list"
  full_text :: string

text \<open>The work done outside the handler, in the order the handler asks for it.\<close>

datatype event = SaveUpload | OpenPdf | ExtractText nat | RunPdftoppm | SubmitOcr nat string

text \<open>\<^verbatim>\<open>xs[i] = v\<close> on a list: \<^verbatim>\<open>IndexError\<close> out of range.\<close>

definition setitem :: "'a list \<Rightarrow> nat \<Rightarrow> 'a \<Rightarrow> error + 'a list" where
  "setitem xs i v = (if i < length xs then Inr (xs[i := v]) else Inl IndexError)"

text \<open>Lines 127 to 131: \<^verbatim>\<open>(page.extract_text() or "").strip()\<close>, and \<^verbatim>\<open>""\<close> when it raises.\<close>

definition direct_text :: "extract_outcome \<Rightarrow> string" where
  "direct_text p =
     (case p of
        Returns t \<Rightarrow> strip (if t \<noteq> [] then t else [])
      | ReturnsNone \<Rightarrow> strip []
      | Raises \<Rightarrow> [])"

text \<open>The loop of lines 126 to 131.\<close>

fun extract_loop :: "(nat \<times> extract_outcome) list \<Rightarrow> string list \<Rightarrow> error + string list" where
  "extract_loop [] extracted_texts = Inr extracted_texts"
| "extract_loop ((i, page) # rest) extracted_texts =
     (case setitem extracted_texts i (direct_text page) of
        Inl err \<Rightarrow> Inl err
      | Inr extracted_texts' \<Rightarrow> extract_loop rest extracted_texts')"

text \<open>The loop of lines 139 to 143, building \<^verbatim>\<open>page_to_image\<close>.\<close>

fun match_images ::
  "nat \<Rightarrow> string list \<Rightarrow> (nat \<rightharpoonup> string) \<Rightarrow> error + (nat \<rightharpoonup> string)" where
  "match_images num_pages [] page_to_image = Inr page_to_image"
| "match_images num_pages (img_path # rest) page_to_image =
     (case page_no img_path of
        None \<Rightarrow> Inl ValueError
      | Some k \<Rightarrow>
          (let page_num = k - 1
           in if 0 \<le> page_num \<and> page_num < int num_pages
              then match_images num_pages rest (page_to_image(nat page_num \<mapsto> img_path))
              else match_images num_pages rest page_to_image))"

text \<open>
  The loop of lines 157 to 162. \<open>futures\<close> lists the submitted tasks, page index and
  image, in the order of submission. \<^verbatim>\<open>if img\<close> fails on \<^verbatim>\<open>None\<close> and on the empty string.
\<close>

fun submit_loop ::
  "(nat \<rightharpoonup> string) \<Rightarrow> nat list \<Rightarrow> string list \<Rightarrow> (nat \<times> string) list
     \<Rightarrow> error + (string list \<times> (nat \<times> string) list)" where
  "submit_loop page_to_image [] extracted_texts futures = Inr (extracted_texts, futures)"
| "submit_loop page_to_image (page_index # rest) extracted_texts futures =
     (case page_to_image page_index of
        Some img \<Rightarrow>
          if img \<noteq> []
          then submit_loop page_to_image rest extracted_texts (futures @ [(page_index, img)])
          else (case setitem extracted_texts page_index ''[NO IMAGE AVAILABLE FOR OCR]'' of
                  Inl err \<Rightarrow> Inl err
                | Inr extracted_texts' \<Rightarrow>
                    submit_loop page_to_image rest extracted_texts' futures)
      | None \<Rightarrow>
          (case setitem extracted_texts page_index ''[NO IMAGE AVAILABLE FOR OCR]'' of
             Inl err \<Rightarrow> Inl err
           | Inr extracted_texts' \<Rightarrow>
               submit_loop page_to_image rest extracted_texts' futures))"

text \<open>
  \<^verbatim>\<open>fut.result()\<close> of the task submitted as \<^verbatim>\<open>ex.submit(ocr_image, img)\<close>: the value
  \<^verbatim>\<open>ocr_image\<close> returns under its default timeout of 8 seconds; \<open>Inl\<close> would be the message of
  an exception the task raised.
\<close>

definition fut_result :: "world \<Rightarrow> string \<Rightarrow> string + string" where
  "fut_result w img = Inr (ocr_image w img 8)"

text \<open>The loop of lines 165 to 170 over the futures in the order they complete.\<close>

fun collect_loop :: "world \<Rightarrow> (nat \<times> string) list \<Rightarrow> string list \<Rightarrow> error + string list" where
  "collect_loop w [] extracted_texts = Inr extracted_texts"
| "collect_loop w ((idx, img) # rest) extracted_texts =
     (case setitem extracted_texts idx
             (case fut_result w img of
                Inr res \<Rightarrow> res
              | Inl e \<Rightarrow> ''[OCR FAILED] '' @ e) of
        Inl err \<Rightarrow> Inl err
      | Inr extracted_texts' \<Rightarrow> collect_loop w rest extracted_texts')"

text \<open>\<^verbatim>\<open>as_completed(futures)\<close>: the futures by completion time.\<close>

definition as_completed :: "world \<Rightarrow> (nat \<times> string) list \<Rightarrow> (nat \<times> string) list" where
  "as_completed w futures = sort_key (\<lambda>(idx, img). completion_time w idx) futures"

text \<open>Lines 151 to 170: the OCR phase, which returns the texts and the tasks it submitted.\<close>

definition ocr_phase ::
  "world \<Rightarrow> (nat \<rightharpoonup> string) \<Rightarrow> nat list \<Rightarrow> string list
     \<Rightarrow> error + (string list \<times> (nat \<times> string) list)" where
  "ocr_phase w page_to_image needing extracted_texts =
     (if 0 < length needing
      then (case submit_loop page_to_image needing extracted_texts [] of
              Inl err \<Rightarrow> Inl err
            | Inr (extracted_texts', futures) \<Rightarrow>
                (case collect_loop w (as_completed w futures) extracted_texts' of
                   Inl err \<Rightarrow> Inl err
                 | Inr extracted_texts'' \<Rightarrow> Inr (extracted_texts'', futures)))
      else Inr (extracted_texts, []))"

text \<open>Lines 175 to 188: the response.\<close>

definition build_response :: "nat \<Rightarrow> bool \<Rightarrow> string list \<Rightarrow> response" where
  "build_response num_pages used extracted_texts =
     \<lparr> status = ''success'',
       page_count = num_pages,
       ocr_used = used,
       pages = map (\<lambda>i. \<lparr> page_number = i + 1, page_text = extracted_texts ! i \<rparr>) [0..<num_pages],
       full_text = join [CHR 0x0A, CHR 0x0A] extracted_texts \<rparr>"

text \<open>
  \<^verbatim>\<open>extract_pdf\<close>, lines 104 to 188: the response or the exception that leaves the handler,
  and the outside work done on the way.
\<close>

definition extract_pdf :: "world \<Rightarrow> (error + response) \<times> event list" where
  "extract_pdf w =
     (if \<not> endswith (lower (filename w)) ''.pdf''
      then (Inl (HTTPException 400 ''File must be a PDF''), [])
      else
        (case reader w of
           Inl e \<Rightarrow> (Inl (HTTPException 500 (''PDF read error: '' @ e)), [SaveUpload, OpenPdf])
         | Inr reader_pages \<Rightarrow>
             (let num_pages = length reader_pages;
                  ev1 = [SaveUpload, OpenPdf] @ map ExtractText [0..<num_pages]
              in case extract_loop (enumerate 0 reader_pages) (replicate num_pages []) of
                   Inl err \<Rightarrow> (Inl err, ev1)
                 | Inr extracted_texts \<Rightarrow>
                     (let ev2 = ev1 @ [RunPdftoppm]
                      in case convert_pdf_to_images w 200 of
                           Inl err \<Rightarrow> (Inl err, ev2)
                         | Inr image_paths \<Rightarrow>
                             (case match_images num_pages image_paths Map.empty of
                                Inl err \<Rightarrow> (Inl err, ev2)
                              | Inr page_to_image \<Rightarrow>
                                  (let needing = pages_needing_ocr extracted_texts
                                   in case ocr_phase w page_to_image needing extracted_texts of
                                        Inl err \<Rightarrow> (Inl err, ev2)
                                      | Inr (final_texts, futures) \<Rightarrow>
                                          (Inr (build_response num_pages (0 < length needing)
                                                  final_texts),
                                           ev2 @ map (\<lambda>(idx, img). SubmitOcr idx img)
                                                   futures)))))))"

section \<open>Example requests\<close>

text \<open>
  A scanned report of three pages: the first and the third carry a text layer, the second
  has none; the rasterizer leaves one image per page and the OCR engine reads the second.
\<close>

definition scan_world :: world where
  "scan_world =
     \<lparr> filename = ''report.PDF'',
       reader = Inr [Returns ''Patient: A. Mensah, age 54 '', Returns [],
                     Returns ''eGFR 38 mL/min/1.73 m2''],
       pdftoppm = (\<lambda>dpi. CompletedProcess 0 []),
       output_files = [''page-3.jpg'', ''page-1.jpg'', ''page-2.jpg''],
       tesseract = (\<lambda>img t.
          if img = ''page-2.jpg'' then CompletedProcess 0 '' Creatinine 1.9 mg/dL  ''
          else if img = ''page-1.jpg'' then OtherException ''cannot read image''
          else if img = ''page-3.jpg'' then CompletedProcess 1 ''  ''
          else TimeoutExpired),
       completion_time = (\<lambda>i. 0) \<rparr>"

text \<open>A report whose two pages both carry a text layer.\<close>

definition text_world :: world where
  "text_world =
     scan_world \<lparr> reader := Inr [Returns ''Patient: A. Mensah, age 54 '',
                                 Returns ''eGFR 38 mL/min/1.73 m2''] \<rparr>"

text \<open>The scanned report when \<^verbatim>\<open>pdftoppm\<close> exits with code 1.\<close>

definition failed_raster_world :: world where
  "failed_raster_world = scan_world \<lparr> pdftoppm := (\<lambda>dpi. CompletedProcess 1 []) \<rparr>"

text \<open>The scanned report when \<^verbatim>\<open>pdftoppm\<close> exits with code 0 and leaves a file \<^verbatim>\<open>page-x.jpg\<close>.\<close>

definition odd_output_world :: world where
  "odd_output_world = scan_world \<lparr> output_files := [''page-1.jpg'', ''page-x.jpg''] \<rparr>"

text \<open>The scanned report when \<^verbatim>\<open>pdftoppm\<close> leaves images numbered 0, 2 and 7.\<close>

definition extra_images_world :: world where
  "extra_images_world =
     scan_world \<lparr> output_files := [''page-0.jpg'', ''page-2.jpg'', ''page-7.jpg''] \<rparr>"

text \<open>The scanned report uploaded under the name \<^verbatim>\<open>notes.txt\<close>.\<close>

definition txt_world :: world where
  "txt_world = scan_world \<lparr> filename := ''notes.txt'' \<rparr>"

text \<open>The scanned report when the text extraction of the second page raises.\<close>

definition raising_page_world :: world where
  "raising_page_world =
     scan_world \<lparr> reader := Inr [Returns ''Patient: A. Mensah, age 54 '', Raises,
                                 Returns ''eGFR 38 mL/min/1.73 m2''] \<rparr>"

text \<open>A report whose first and third page are scans, with an image for each.\<close>

definition two_scans_world :: world where
  "two_scans_world =
     scan_world \<lparr> reader := Inr [Returns [], Returns ''eGFR 38 mL/min/1.73 m2'', ReturnsNone],
                  tesseract := (\<lambda>img t.
                     if img = ''page-1.jpg'' then CompletedProcess 0 ''Urea 11 mmol/L''
                     else TimeoutExpired) \<rparr>"

section \<open>Properties of the string functions\<close>

lemma strip_Nil: "strip [] = []" by (simp add: strip_def)

lemma dropWhile_all_iff: "(\<forall>x\<in>set (dropWhile P s). P x) \<longleftrightarrow> (\<forall>x\<in>set s. P x)"
proof
  assume a: "\<forall>x\<in>set (dropWhile P s). P x"
  have "dropWhile P s = []"
  proof (rule ccontr)
    assume n: "dropWhile P s \<noteq> []"
    then have "\<not> P (hd (dropWhile P s))" by (rule hd_dropWhile)
    moreover have "hd (dropWhile P s) \<in> set (dropWhile P s)" using n by simp
    ultimately show False using a by blast
  qed
  then show "\<forall>x\<in>set s. P x" by (simp add: dropWhile_eq_Nil_conv)
next
  assume "\<forall>x\<in>set s. P x"
  then show "\<forall>x\<in>set (dropWhile P s). P x" by (blast dest: set_dropWhileD)
qed

lemma strip_empty_iff: "strip s = [] \<longleftrightarrow> list_all is_space s"
  by (simp add: strip_def list_all_iff dropWhile_eq_Nil_conv dropWhile_all_iff)

lemma dropWhile_strip:
  "dropWhile is_space s = strip s @ rev (takeWhile is_space (rev (dropWhile is_space s)))"
  unfolding strip_def by (metis rev_append rev_rev_ident takeWhile_dropWhile_id)

lemma strip_hd:
  assumes "strip s \<noteq> []"
  shows "\<not> is_space (hd (strip s))"
proof -
  let ?d = "dropWhile is_space s"
  have d: "?d \<noteq> []" using assms dropWhile_strip [of s] by (metis Nil_is_append_conv)
  have "hd ?d = hd (strip s)" using assms dropWhile_strip [of s] by (metis hd_append2)
  with hd_dropWhile [OF d] show ?thesis by simp
qed

lemma strip_last: "strip s \<noteq> [] \<Longrightarrow> \<not> is_space (last (strip s))"
  unfolding strip_def by (simp add: last_rev hd_dropWhile)

lemma strip_decomp:
  "\<exists>l r. s = l @ strip s @ r \<and> list_all is_space l \<and> list_all is_space r"
proof -
  let ?d = "dropWhile is_space s"
  let ?r = "rev (takeWhile is_space (rev ?d))"
  have "s = takeWhile is_space s @ ?d" by simp
  then have "s = takeWhile is_space s @ strip s @ ?r"
    using dropWhile_strip [of s] by simp
  moreover have "list_all is_space (takeWhile is_space s)"
    by (auto simp: list_all_iff dest: set_takeWhileD)
  moreover have "list_all is_space ?r"
    by (auto simp: list_all_iff dest: set_takeWhileD)
  ultimately show ?thesis by blast
qed

lemma strip_fixed:
  assumes "s = [] \<or> (\<not> is_space (hd s) \<and> \<not> is_space (last s))"
  shows "strip s = s"
proof (cases "s = []")
  case True
  then show ?thesis by (simp add: strip_def)
next
  case False
  with assms have h: "\<not> is_space (hd s)" and l: "\<not> is_space (last s)" by blast+
  have 1: "dropWhile is_space s = s" using h by (simp add: dropWhile_eq_self_iff)
  have "hd (rev s) = last s" using False by (simp add: hd_rev)
  then have 2: "dropWhile is_space (rev s) = rev s" using l by (simp add: dropWhile_eq_self_iff)
  show ?thesis by (simp add: strip_def 1 2)
qed

lemma strip_idem: "strip (strip s) = strip s"
  by (rule strip_fixed) (use strip_hd strip_last in blast)

lemma length_strip_le: "length (strip s) \<le> length s"
  unfolding strip_def by (metis length_rev length_dropWhile_le le_trans)


lemma pages_needing_ocr_filter:
  "pages_needing_ocr ts = filter (\<lambda>i. length (strip (ts ! i)) < 20) [0..<length ts]"
proof (induction ts rule: rev_induct)
  case Nil
  show ?case by (simp add: pages_needing_ocr_def)
next
  case (snoc x xs)
  have "filter (\<lambda>i. length (strip ((xs @ [x]) ! i)) < 20) [0..<length xs]
      = filter (\<lambda>i. length (strip (xs ! i)) < 20) [0..<length xs]"
    by (rule filter_cong) (auto simp: nth_append)
  with snoc show ?case
    by (simp add: pages_needing_ocr_def enumerate_append_eq)
qed

lemma set_pages_needing_ocr:
  "set (pages_needing_ocr ts) = {i. i < length ts \<and> length (strip (ts ! i)) < 20}"
  by (auto simp: pages_needing_ocr_filter)

lemma distinct_pages_needing_ocr: "distinct (pages_needing_ocr ts)"
  by (simp add: pages_needing_ocr_filter)

section \<open>Properties of the adapters and the loops\<close>

lemma extract_loop_enumerate:
  "k + length ps \<le> length ts \<Longrightarrow>
     extract_loop (enumerate k ps) ts
       = Inr (take k ts @ map direct_text ps @ drop (k + length ps) ts)"
proof (induction ps arbitrary: k ts)
  case Nil
  then show ?case by simp
next
  case (Cons p ps)
  let ?ts = "ts[k := direct_text p]"
  from Cons.prems have k: "k < length ts" by simp
  then have s: "setitem ts k (direct_text p) = Inr ?ts" by (simp add: setitem_def)
  from Cons.prems have "Suc k + length ps \<le> length ?ts" by simp
  from Cons.IH [OF this]
  have "extract_loop (enumerate (Suc k) ps) ?ts
          = Inr (take (Suc k) ?ts @ map direct_text ps @ drop (Suc k + length ps) ?ts)" .
  moreover have "take (Suc k) ?ts = take k ts @ [direct_text p]"
    using k by (simp add: take_Suc_conv_app_nth)
  moreover have "drop (Suc k + length ps) ?ts = drop (Suc k + length ps) ts"
    by simp
  ultimately show ?case using s by simp
qed

lemma extract_loop_all:
  "extract_loop (enumerate 0 ps) (replicate (length ps) []) = Inr (map direct_text ps)"
  using extract_loop_enumerate [of 0 ps "replicate (length ps) []"] by simp

lemma those_map_Some:
  "those (map f xs) = Some ys \<Longrightarrow> length ys = length xs \<and> (\<forall>i<length xs. f (xs ! i) = Some (ys ! i))"
proof (induction xs arbitrary: ys)
  case Nil
  then show ?case by simp
next
  case (Cons x xs)
  then show ?case
    by (auto split: option.splits simp: nth_Cons split: nat.splits)
qed

lemma those_map_None:
  "those (map f xs) = None \<Longrightarrow> \<exists>x\<in>set xs. f x = None"
  by (induction xs) (auto split: option.splits)

lemma convert_pdf_to_images_Inr:
  assumes "convert_pdf_to_images w dpi = Inr imgs" and "p \<in> set imgs"
  shows "page_no p \<noteq> None \<and> p \<in> set (output_files w) \<and> glob_match p"
proof (cases "pdftoppm w dpi")
  case (CompletedProcess rc out)
  let ?fs = "filter glob_match (output_files w)"
  let ?f = "\<lambda>p. map_option (\<lambda>k. (k, p)) (page_no p)"
  from assms CompletedProcess obtain keyed where
    k: "those (map ?f ?fs) = Some keyed" and i: "imgs = map snd (sort_key fst keyed)"
    by (auto simp: convert_pdf_to_images_def split: if_splits option.splits)
  from those_map_Some [OF k]
  have len: "length keyed = length ?fs" and nth: "\<forall>i<length ?fs. ?f (?fs ! i) = Some (keyed ! i)"
    by blast+
  from assms(2) i have "p \<in> snd ` set keyed" by simp
  then obtain j where j: "j < length keyed" "p = snd (keyed ! j)"
    by (auto simp: in_set_conv_nth)
  with len nth have "?f (?fs ! j) = Some (keyed ! j)" by simp
  then have "page_no (?fs ! j) \<noteq> None" "snd (keyed ! j) = ?fs ! j"
    by (auto dest: arg_cong [where f = snd])
  moreover have "?fs ! j \<in> set ?fs" using j len by (intro nth_mem) simp
  ultimately show ?thesis using j by auto
qed (use assms in \<open>auto simp: convert_pdf_to_images_def\<close>)

lemma convert_pdf_to_images_Inl:
  assumes "convert_pdf_to_images w dpi = Inl e"
  shows "e = ValueError \<and> (\<exists>out. pdftoppm w dpi = CompletedProcess 0 out)
         \<and> (\<exists>p\<in>set (output_files w). glob_match p \<and> page_no p = None)"
proof (cases "pdftoppm w dpi")
  case (CompletedProcess rc out)
  let ?fs = "filter glob_match (output_files w)"
  let ?f = "\<lambda>p. map_option (\<lambda>k. (k, p)) (page_no p)"
  from assms CompletedProcess have e: "e = ValueError" and rc: "rc = 0"
    and n: "those (map ?f ?fs) = None"
    by (auto simp: convert_pdf_to_images_def split: if_splits option.splits)
  from those_map_None [OF n] have "\<exists>p\<in>set ?fs. page_no p = None" by auto
  with e rc CompletedProcess show ?thesis by auto
qed (use assms in \<open>auto simp: convert_pdf_to_images_def\<close>)

lemma convert_pdf_to_images_failed:
  "\<forall>out. pdftoppm w dpi \<noteq> CompletedProcess 0 out \<Longrightarrow> convert_pdf_to_images w dpi = Inr []"
  by (cases "pdftoppm w dpi") (auto simp: convert_pdf_to_images_def)

lemma match_images_Inr:
  "\<forall>p\<in>set imgs. page_no p \<noteq> None \<Longrightarrow> \<exists>m'. match_images n imgs m = Inr m'"
  by (induction imgs arbitrary: m) (auto simp: Let_def)

lemma match_images_inv:
  "match_images n imgs m = Inr m' \<Longrightarrow> m' k = Some img \<Longrightarrow>
     m k = Some img \<or> (k < n \<and> img \<in> set imgs \<and> page_no img = Some (int k + 1))"
proof (induction imgs arbitrary: m)
  case Nil
  then show ?case by simp
next
  case (Cons p imgs)
  from Cons.prems(1) obtain q where q: "page_no p = Some q"
    by (auto split: option.splits)
  show ?case
  proof (cases "0 \<le> q - 1 \<and> q - 1 < int n")
    case True
    with Cons.prems(1) q
    have "match_images n imgs (m(nat (q - 1) \<mapsto> p)) = Inr m'" by (simp add: Let_def)
    from Cons.IH [OF this Cons.prems(2)] True q show ?thesis
      by (auto split: if_splits)
  next
    case False
    with Cons.prems(1) q have "match_images n imgs m = Inr m'" by (auto simp: Let_def)
    from Cons.IH [OF this Cons.prems(2)] show ?thesis by auto
  qed
qed

lemma match_images_empty:
  "match_images n [] m = Inr m" by simp

lemma submit_loop_result:
  assumes "\<forall>i\<in>set needing. i < length ts"
  shows "\<exists>ts'. submit_loop m needing ts fs
            = Inr (ts', fs @ concat (map (\<lambda>i. case m i of
                                             Some img \<Rightarrow> if img \<noteq> [] then [(i, img)] else []
                                           | None \<Rightarrow> []) needing))
          \<and> length ts' = length ts
          \<and> (\<forall>j<length ts. ts' ! j =
                (if j \<in> set needing \<and> (m j = None \<or> m j = Some [])
                 then ''[NO IMAGE AVAILABLE FOR OCR]'' else ts ! j))"
  using assms
proof (induction needing arbitrary: ts fs)
  case Nil
  then show ?case by simp
next
  case (Cons i needing)
  from Cons.prems have i: "i < length ts" and rest: "\<forall>i\<in>set needing. i < length ts" by simp_all
  show ?case
  proof (cases "m i = None \<or> m i = Some []")
    case True
    let ?ts = "ts[i := ''[NO IMAGE AVAILABLE FOR OCR]'']"
    from rest have "\<forall>i\<in>set needing. i < length ?ts" by simp
    from Cons.IH [OF this, of fs] obtain ts' where
      1: "submit_loop m needing ?ts fs
            = Inr (ts', fs @ concat (map (\<lambda>i. case m i of
                                             Some img \<Rightarrow> if img \<noteq> [] then [(i, img)] else []
                                           | None \<Rightarrow> []) needing))"
      and 2: "length ts' = length ?ts"
      and 3: "\<forall>j<length ?ts. ts' ! j =
                (if j \<in> set needing \<and> (m j = None \<or> m j = Some [])
                 then ''[NO IMAGE AVAILABLE FOR OCR]'' else ?ts ! j)"
      by blast
    from True i 1 have "submit_loop m (i # needing) ts fs
            = Inr (ts', fs @ concat (map (\<lambda>i. case m i of
                                             Some img \<Rightarrow> if img \<noteq> [] then [(i, img)] else []
                                           | None \<Rightarrow> []) (i # needing)))"
      by (auto simp: setitem_def)
    moreover from 3 True i have "\<forall>j<length ts. ts' ! j =
                (if j \<in> set (i # needing) \<and> (m j = None \<or> m j = Some [])
                 then ''[NO IMAGE AVAILABLE FOR OCR]'' else ts ! j)"
      by (auto simp: nth_list_update)
    ultimately show ?thesis using 2 by auto
  next
    case False
    then obtain img where img: "m i = Some img" "img \<noteq> []" by auto
    from Cons.IH [OF rest, of "fs @ [(i, img)]"] obtain ts' where
      1: "submit_loop m needing ts (fs @ [(i, img)])
            = Inr (ts', (fs @ [(i, img)]) @ concat (map (\<lambda>i. case m i of
                                             Some img \<Rightarrow> if img \<noteq> [] then [(i, img)] else []
                                           | None \<Rightarrow> []) needing))"
      and 2: "length ts' = length ts"
      and 3: "\<forall>j<length ts. ts' ! j =
                (if j \<in> set needing \<and> (m j = None \<or> m j = Some [])
                 then ''[NO IMAGE AVAILABLE FOR OCR]'' else ts ! j)"
      by blast
    from img 1 have "submit_loop m (i # needing) ts fs
            = Inr (ts', fs @ concat (map (\<lambda>i. case m i of
                                             Some img \<Rightarrow> if img \<noteq> [] then [(i, img)] else []
                                           | None \<Rightarrow> []) (i # needing)))"
      by simp
    moreover from 3 img have "\<forall>j<length ts. ts' ! j =
                (if j \<in> set (i # needing) \<and> (m j = None \<or> m j = Some [])
                 then ''[NO IMAGE AVAILABLE FOR OCR]'' else ts ! j)"
      by auto
    ultimately show ?thesis using 2 by auto
  qed
qed

lemma collect_loop_Inr:
  "\<forall>(i, img)\<in>set c. i < length ts \<Longrightarrow>
     \<exists>ts'. collect_loop w c ts = Inr ts' \<and> length ts' = length ts"
proof (induction c arbitrary: ts)
  case Nil
  then show ?case by simp
next
  case (Cons a c)
  obtain idx img where a: "a = (idx, img)" by (cases a)
  let ?ts = "ts[idx := ocr_image w img 8]"
  from Cons.prems a have "\<forall>(i, img)\<in>set c. i < length ?ts" by auto
  from Cons.IH [OF this] Cons.prems a show ?case
    by (auto simp: setitem_def fut_result_def)
qed

lemma collect_loop_nth:
  "distinct (map fst c) \<Longrightarrow> collect_loop w c ts = Inr ts' \<Longrightarrow> j < length ts \<Longrightarrow>
     ts' ! j = (case map_of c j of Some img \<Rightarrow> ocr_image w img 8 | None \<Rightarrow> ts ! j)"
proof (induction c arbitrary: ts)
  case Nil
  then show ?case by simp
next
  case (Cons a c)
  obtain idx img where a: "a = (idx, img)" by (cases a)
  let ?ts = "ts[idx := ocr_image w img 8]"
  from Cons.prems(2) a have idx: "idx < length ts" and r: "collect_loop w c ?ts = Inr ts'"
    by (auto simp: setitem_def fut_result_def split: if_splits)
  from Cons.prems(1) a have d: "distinct (map fst c)" and n: "idx \<notin> fst ` set c" by auto
  from Cons.prems(3) have "j < length ?ts" by simp
  from Cons.IH [OF d r this]
  have *: "ts' ! j = (case map_of c j of Some img \<Rightarrow> ocr_image w img 8 | None \<Rightarrow> ?ts ! j)" .
  show ?case
  proof (cases "j = idx")
    case True
    with n have "map_of c j = None" by (simp add: map_of_eq_None_iff)
    with * True idx a show ?thesis by simp
  next
    case False
    with * a show ?thesis by (simp split: option.splits)
  qed
qed

lemma collect_loop_length:
  "collect_loop w c ts = Inr ts' \<Longrightarrow> length ts' = length ts"
  by (induction c arbitrary: ts)
     (auto simp: setitem_def fut_result_def split: if_splits sum.splits)

lemma collect_loop_perm:
  assumes m: "mset c1 = mset c2" and d: "distinct (map fst c1)"
    and b: "\<forall>(i, img)\<in>set c1. i < length ts"
  shows "collect_loop w c1 ts = collect_loop w c2 ts"
proof -
  from m have s: "set c1 = set c2" by (rule mset_eq_setD)
  from m have "mset (map fst c1) = mset (map fst c2)" by simp
  with d have d2: "distinct (map fst c2)" by (metis distinct_count_atmost_1 mset_eq_imp_distinct_iff)
  from b s have b2: "\<forall>(i, img)\<in>set c2. i < length ts" by simp
  from collect_loop_Inr [OF b] obtain t1 where 1: "collect_loop w c1 ts = Inr t1"
    and l1: "length t1 = length ts" by blast
  from collect_loop_Inr [OF b2] obtain t2 where 2: "collect_loop w c2 ts = Inr t2"
    and l2: "length t2 = length ts" by blast
  have mo: "map_of c1 = map_of c2"
    using s d d2 by (simp add: map_of_inject_set)
  have "t1 = t2"
  proof (rule nth_equalityI)
    show "length t1 = length t2" using l1 l2 by simp
  next
    fix j assume "j < length t1"
    with l1 have j: "j < length ts" by simp
    from collect_loop_nth [OF d 1 j] collect_loop_nth [OF d2 2 j] mo
    show "t1 ! j = t2 ! j" by simp
  qed
  with 1 2 show ?thesis by simp
qed

lemma set_submitted:
  "(i, img) \<in> set (concat (map (\<lambda>i. case m i of
                                     Some img \<Rightarrow> if img \<noteq> [] then [(i, img)] else []
                                   | None \<Rightarrow> []) needing))
     \<longleftrightarrow> i \<in> set needing \<and> m i = Some img \<and> img \<noteq> []"
  by (induction needing) (auto split: option.splits if_splits)

lemma fst_submitted:
  "map fst (concat (map (\<lambda>i. case m i of
                              Some img \<Rightarrow> if img \<noteq> [] then [(i, img)] else []
                            | None \<Rightarrow> []) needing))
     = filter (\<lambda>i. \<exists>img. m i = Some img \<and> img \<noteq> []) needing"
  by (induction needing) (auto split: option.splits)

lemma ocr_phase_result:
  "\<exists>final. ocr_phase w m (pages_needing_ocr ts) ts
              = Inr (final, concat (map (\<lambda>i. case m i of
                                            Some img \<Rightarrow> if img \<noteq> [] then [(i, img)] else []
                                          | None \<Rightarrow> []) (pages_needing_ocr ts)))
     \<and> length final = length ts
     \<and> (\<forall>j<length ts. final ! j =
           (if length (strip (ts ! j)) < 20
            then (case m j of
                    Some img \<Rightarrow> if img \<noteq> [] then ocr_image w img 8
                                else ''[NO IMAGE AVAILABLE FOR OCR]''
                  | None \<Rightarrow> ''[NO IMAGE AVAILABLE FOR OCR]'')
            else ts ! j))"
proof (cases "pages_needing_ocr ts = []")
  case True
  then have "\<forall>j<length ts. \<not> length (strip (ts ! j)) < 20"
    using set_pages_needing_ocr [of ts] by auto
  with True show ?thesis by (simp add: ocr_phase_def)
next
  case False
  let ?needing = "pages_needing_ocr ts"
  let ?futs = "concat (map (\<lambda>i. case m i of
                                Some img \<Rightarrow> if img \<noteq> [] then [(i, img)] else []
                              | None \<Rightarrow> []) ?needing)"
  let ?c = "as_completed w ?futs"
  have bound: "\<forall>i\<in>set ?needing. i < length ts" by (simp add: set_pages_needing_ocr)
  from submit_loop_result [OF bound, of m "[]"] obtain ts1 where
    s: "submit_loop m ?needing ts [] = Inr (ts1, ?futs)"
    and l1: "length ts1 = length ts"
    and n1: "\<forall>j<length ts. ts1 ! j =
                (if j \<in> set ?needing \<and> (m j = None \<or> m j = Some [])
                 then ''[NO IMAGE AVAILABLE FOR OCR]'' else ts ! j)"
    by auto
  have mc: "mset ?c = mset ?futs" by (simp add: as_completed_def)
  then have sc: "set ?c = set ?futs" by (rule mset_eq_setD)
  have df: "distinct (map fst ?futs)"
    by (simp add: fst_submitted distinct_pages_needing_ocr)
  from mc have mm: "mset (map fst ?c) = mset (map fst ?futs)" by simp
  have dc: "distinct (map fst ?c)"
    using mset_eq_imp_distinct_iff [OF mm] df by blast
  have bc: "\<forall>(i, img)\<in>set ?c. i < length ts1"
    using sc l1 bound by (auto simp: set_submitted)
  from collect_loop_Inr [OF bc] obtain final where
    c: "collect_loop w ?c ts1 = Inr final" and lf: "length final = length ts1" by blast
  have "final ! j =
           (if length (strip (ts ! j)) < 20
            then (case m j of
                    Some img \<Rightarrow> if img \<noteq> [] then ocr_image w img 8
                                else ''[NO IMAGE AVAILABLE FOR OCR]''
                  | None \<Rightarrow> ''[NO IMAGE AVAILABLE FOR OCR]'')
            else ts ! j)" if j: "j < length ts" for j
  proof -
    from j l1 have j1: "j < length ts1" by simp
    note nth = collect_loop_nth [OF dc c j1]
    have mo: "map_of ?c j = Some img \<longleftrightarrow> j \<in> set ?needing \<and> m j = Some img \<and> img \<noteq> []"
      for img
    proof -
      have "map_of ?c j = Some img \<longleftrightarrow> (j, img) \<in> set ?c"
        by (rule map_of_eq_Some_iff [OF dc])
      also have "\<dots> \<longleftrightarrow> (j, img) \<in> set ?futs" by (simp only: sc)
      also have "\<dots> \<longleftrightarrow> j \<in> set ?needing \<and> m j = Some img \<and> img \<noteq> []"
        by (rule set_submitted)
      finally show ?thesis .
    qed
    have jn: "j \<in> set ?needing \<longleftrightarrow> length (strip (ts ! j)) < 20"
      using j by (simp add: set_pages_needing_ocr)
    show ?thesis
    proof (cases "map_of ?c j")
      case None
      with mo have no: "\<not> (j \<in> set ?needing \<and> (\<exists>img. m j = Some img \<and> img \<noteq> []))" by auto
      from nth None have "final ! j = ts1 ! j" by simp
      with n1 j no jn show ?thesis by (auto split: option.splits)
    next
      case (Some img)
      with mo have "j \<in> set ?needing" "m j = Some img" "img \<noteq> []" by auto
      with nth Some jn show ?thesis by simp
    qed
  qed
  with False s c lf l1 show ?thesis by (simp add: ocr_phase_def)
qed


lemma glob_match_nonempty: "glob_match p \<Longrightarrow> p \<noteq> []"
  by (auto simp: glob_match_def)

lemma extract_pdf_accepted:
  assumes "endswith (lower (filename w)) ''.pdf''" and "reader w = Inr ps"
  shows "extract_pdf w =
     (case convert_pdf_to_images w 200 of
        Inl err \<Rightarrow> (Inl err, [SaveUpload, OpenPdf] @ map ExtractText [0..<length ps] @ [RunPdftoppm])
      | Inr image_paths \<Rightarrow>
          (case match_images (length ps) image_paths Map.empty of
             Inl err \<Rightarrow>
               (Inl err, [SaveUpload, OpenPdf] @ map ExtractText [0..<length ps] @ [RunPdftoppm])
           | Inr page_to_image \<Rightarrow>
               (case ocr_phase w page_to_image (pages_needing_ocr (map direct_text ps))
                       (map direct_text ps) of
                  Inl err \<Rightarrow>
                    (Inl err,
                     [SaveUpload, OpenPdf] @ map ExtractText [0..<length ps] @ [RunPdftoppm])
                | Inr (final_texts, futures) \<Rightarrow>
                    (Inr (build_response (length ps)
                            (pages_needing_ocr (map direct_text ps) \<noteq> []) final_texts),
                     [SaveUpload, OpenPdf] @ map ExtractText [0..<length ps] @ [RunPdftoppm]
                       @ map (\<lambda>(idx, img). SubmitOcr idx img) futures))))"
  using assms by (simp add: extract_pdf_def extract_loop_all Let_def split: sum.splits)

lemma extract_pdf_ValueError:
  assumes "endswith (lower (filename w)) ''.pdf''" and "reader w = Inr ps"
    and "convert_pdf_to_images w 200 = Inl e"
  shows "extract_pdf w =
           (Inl ValueError,
            [SaveUpload, OpenPdf] @ map ExtractText [0..<length ps] @ [RunPdftoppm])"
  using convert_pdf_to_images_Inl [OF assms(3)] assms(3)
  by (simp add: extract_pdf_accepted [OF assms(1,2)])

lemma extract_pdf_success:
  assumes "endswith (lower (filename w)) ''.pdf''" and "reader w = Inr ps"
    and "convert_pdf_to_images w 200 = Inr image_paths"
  shows "\<exists>page_to_image final_texts.
           match_images (length ps) image_paths Map.empty = Inr page_to_image
         \<and> (\<forall>k img. page_to_image k = Some img \<longrightarrow>
                k < length ps \<and> img \<in> set image_paths \<and> page_no img = Some (int k + 1))
         \<and> extract_pdf w =
             (Inr (build_response (length ps)
                     (pages_needing_ocr (map direct_text ps) \<noteq> []) final_texts),
              [SaveUpload, OpenPdf] @ map ExtractText [0..<length ps] @ [RunPdftoppm]
                @ map (\<lambda>(idx, img). SubmitOcr idx img)
                    (concat (map (\<lambda>i. case page_to_image i of
                                         Some img \<Rightarrow> [(i, img)] | None \<Rightarrow> [])
                               (pages_needing_ocr (map direct_text ps)))))
         \<and> length final_texts = length ps
         \<and> (\<forall>j<length ps. final_texts ! j =
               (if length (strip (direct_text (ps ! j))) < 20
                then (case page_to_image j of
                        Some img \<Rightarrow> ocr_image w img 8
                      | None \<Rightarrow> ''[NO IMAGE AVAILABLE FOR OCR]'')
                else direct_text (ps ! j)))"
proof -
  let ?ts = "map direct_text ps"
  from convert_pdf_to_images_Inr [OF assms(3)]
  have ok: "\<forall>p\<in>set image_paths. page_no p \<noteq> None" and ne: "\<forall>p\<in>set image_paths. p \<noteq> []"
    by (auto dest: glob_match_nonempty)
  from match_images_Inr [OF ok] obtain m where
    m: "match_images (length ps) image_paths Map.empty = Inr m" by blast
  have inv: "k < length ps \<and> img \<in> set image_paths \<and> page_no img = Some (int k + 1)"
    if "m k = Some img" for k img
    using match_images_inv [OF m that] by simp
  then have mne: "m i \<noteq> Some []" for i using ne by (metis option.inject)
  have g: "(\<lambda>i. case m i of Some img \<Rightarrow> if img \<noteq> [] then [(i, img)] else [] | None \<Rightarrow> [])
         = (\<lambda>i. case m i of Some img \<Rightarrow> [(i, img)] | None \<Rightarrow> [])"
    using mne by (auto split: option.splits)
  from ocr_phase_result [of w m ?ts] obtain final where
    p: "ocr_phase w m (pages_needing_ocr ?ts) ?ts
          = Inr (final, concat (map (\<lambda>i. case m i of Some img \<Rightarrow> [(i, img)] | None \<Rightarrow> [])
                                  (pages_needing_ocr ?ts)))"
    and lf: "length final = length ?ts"
    and nf: "\<forall>j<length ?ts. final ! j =
           (if length (strip (?ts ! j)) < 20
            then (case m j of
                    Some img \<Rightarrow> if img \<noteq> [] then ocr_image w img 8
                                else ''[NO IMAGE AVAILABLE FOR OCR]''
                  | None \<Rightarrow> ''[NO IMAGE AVAILABLE FOR OCR]'')
            else ?ts ! j)"
    unfolding g by blast
  have nf': "\<forall>j<length ps. final ! j =
               (if length (strip (direct_text (ps ! j))) < 20
                then (case m j of
                        Some img \<Rightarrow> ocr_image w img 8
                      | None \<Rightarrow> ''[NO IMAGE AVAILABLE FOR OCR]'')
                else direct_text (ps ! j))"
    using nf mne by (auto split: option.splits)
  have "extract_pdf w =
             (Inr (build_response (length ps) (pages_needing_ocr ?ts \<noteq> []) final),
              [SaveUpload, OpenPdf] @ map ExtractText [0..<length ps] @ [RunPdftoppm]
                @ map (\<lambda>(idx, img). SubmitOcr idx img)
                    (concat (map (\<lambda>i. case m i of Some img \<Rightarrow> [(i, img)] | None \<Rightarrow> [])
                               (pages_needing_ocr ?ts))))"
    by (simp add: extract_pdf_accepted [OF assms(1,2)] assms(3) m p)
  with m inv lf nf' show ?thesis by (intro exI [of _ m] exI [of _ final]) simp
qed

lemma ocr_image_nonempty: "ocr_image w img t \<noteq> []"
  by (cases "tesseract w img t") (auto simp: ocr_image_def Let_def)

lemma classify_direct_text:
  "classify (direct_text p) = Sufficient \<longleftrightarrow> 20 \<le> length (direct_text p)"
proof -
  have "strip (direct_text p) = direct_text p"
    by (cases p) (simp_all add: direct_text_def strip_idem strip_Nil)
  then show ?thesis by (simp add: classify_def)
qed

lemma strip_direct_text: "strip (direct_text p) = direct_text p"
  by (cases p) (simp_all add: direct_text_def strip_idem strip_Nil)

lemma pages_build_response:
  "length (pages (build_response n u ts)) = n"
  "map page_number (pages (build_response n u ts)) = [1..<n + 1]"
  "i < n \<Longrightarrow> page_text (pages (build_response n u ts) ! i) = ts ! i"
  "page_count (build_response n u ts) = n"
  "ocr_used (build_response n u ts) = u"
proof -
  have "map page_number (pages (build_response n u ts)) = map Suc [0..<n]"
    by (simp add: build_response_def comp_def)
  then show "map page_number (pages (build_response n u ts)) = [1..<n + 1]"
    by (simp add: map_Suc_upt)
qed (simp_all add: build_response_def)

lemma pages_needing_ocr_empty:
  "\<forall>p\<in>set ps. classify (direct_text p) = Sufficient \<Longrightarrow>
     pages_needing_ocr (map direct_text ps) = []"
proof -
  assume a: "\<forall>p\<in>set ps. classify (direct_text p) = Sufficient"
  have "set (pages_needing_ocr (map direct_text ps)) = {}"
    using a by (auto simp: set_pages_needing_ocr classify_def split: if_splits)
  then show ?thesis by simp
qed

lemma convert_pdf_to_images_no_files:
  "filter glob_match (output_files w) = [] \<Longrightarrow> convert_pdf_to_images w dpi = Inr []"
  by (cases "pdftoppm w dpi") (auto simp: convert_pdf_to_images_def)

lemma match_images_keeps:
  "match_images n imgs m = Inr m' \<Longrightarrow> m k \<noteq> None \<Longrightarrow> m' k \<noteq> None"
proof (induction imgs arbitrary: m)
  case Nil
  then show ?case by simp
next
  case (Cons p imgs)
  from Cons.prems(1) obtain q where q: "page_no p = Some q"
    by (auto split: option.splits)
  show ?case
  proof (cases "0 \<le> q - 1 \<and> q - 1 < int n")
    case True
    with Cons.prems(1) q
    have "match_images n imgs (m(nat (q - 1) \<mapsto> p)) = Inr m'" by (simp add: Let_def)
    moreover from Cons.prems(2) have "(m(nat (q - 1) \<mapsto> p)) k \<noteq> None" by simp
    ultimately show ?thesis by (rule Cons.IH)
  next
    case False
    with Cons.prems(1) q have "match_images n imgs m = Inr m'" by (auto simp: Let_def)
    from Cons.IH [OF this Cons.prems(2)] show ?thesis .
  qed
qed

lemma match_images_complete:
  "match_images n imgs m = Inr m' \<Longrightarrow> img \<in> set imgs \<Longrightarrow>
     page_no img = Some (int k + 1) \<Longrightarrow> k < n \<Longrightarrow> m' k \<noteq> None"
proof (induction imgs arbitrary: m)
  case Nil
  then show ?case by simp
next
  case (Cons p imgs)
  from Cons.prems(1) obtain q where q: "page_no p = Some q"
    by (auto split: option.splits)
  show ?case
  proof (cases "p = img")
    case True
    with q Cons.prems(3) have qk: "q = int k + 1" by simp
    with Cons.prems(1,4) q
    have "match_images n imgs (m(k \<mapsto> p)) = Inr m'" by (simp add: Let_def)
    moreover have "(m(k \<mapsto> p)) k \<noteq> None" by simp
    ultimately show ?thesis by (rule match_images_keeps)
  next
    case False
    with Cons.prems(2) have mem: "img \<in> set imgs" by simp
    show ?thesis
    proof (cases "0 \<le> q - 1 \<and> q - 1 < int n")
      case True
      with Cons.prems(1) q
      have "match_images n imgs (m(nat (q - 1) \<mapsto> p)) = Inr m'" by (simp add: Let_def)
      from Cons.IH [OF this mem Cons.prems(3,4)] show ?thesis .
    next
      case False
      with Cons.prems(1) q have "match_images n imgs m = Inr m'" by (auto simp: Let_def)
      from Cons.IH [OF this mem Cons.prems(3,4)] show ?thesis .
    qed
  qed
qed

lemma ocr_image_reader: "ocr_image (w\<lparr>reader := x\<rparr>) img t = ocr_image w img t"
  by (simp add: ocr_image_def)

lemma collect_loop_reader: "collect_loop (w\<lparr>reader := x\<rparr>) c ts = collect_loop w c ts"
  by (induction c arbitrary: ts)
     (auto simp: fut_result_def ocr_image_reader split: sum.splits)

lemma ocr_phase_reader: "ocr_phase (w\<lparr>reader := x\<rparr>) m needing ts = ocr_phase w m needing ts"
  by (simp add: ocr_phase_def collect_loop_reader as_completed_def
        cong: sum.case_cong prod.case_cong)

lemma convert_pdf_to_images_reader:
  "convert_pdf_to_images (w\<lparr>reader := x\<rparr>) dpi = convert_pdf_to_images w dpi"
  by (cases "pdftoppm w dpi") (simp_all add: convert_pdf_to_images_def)

lemma extract_pdf_reader_cong:
  assumes "reader w = Inr ps" and "map direct_text qs = map direct_text ps"
  shows "extract_pdf (w\<lparr>reader := Inr qs\<rparr>) = extract_pdf w"
proof -
  from assms(2) have l: "length qs = length ps" by (metis length_map)
  have x: "extract_loop (enumerate 0 qs) (replicate (length ps) []) = Inr (map direct_text ps)"
    using extract_loop_all [of qs] l assms(2) by simp
  show ?thesis
    by (simp add: extract_pdf_def assms l x extract_loop_all Let_def ocr_phase_reader
          convert_pdf_to_images_reader cong: sum.case_cong prod.case_cong)
qed

lemma extract_pdf_no_IndexError: "fst (extract_pdf w) \<noteq> Inl IndexError"
proof (cases "endswith (lower (filename w)) ''.pdf''")
  case False
  then show ?thesis by (simp add: extract_pdf_def)
next
  case True
  show ?thesis
  proof (cases "reader w")
    case (Inl e)
    with True show ?thesis by (simp add: extract_pdf_def)
  next
    case (Inr ps)
    show ?thesis
    proof (cases "convert_pdf_to_images w 200")
      case (Inl e)
      from extract_pdf_ValueError [OF True Inr Inl] show ?thesis by simp
    next
      case c: (Inr image_paths)
      from extract_pdf_success [OF True Inr c] show ?thesis by auto
    qed
  qed
qed

lemma ocr_image_completion_time:
  "ocr_image (w\<lparr>completion_time := f\<rparr>) img t = ocr_image w img t"
  by (simp add: ocr_image_def)

lemma ocr_phase_completion_time:
  "ocr_phase (w\<lparr>completion_time := f\<rparr>) m (pages_needing_ocr ts) ts
     = ocr_phase w m (pages_needing_ocr ts) ts"
proof -
  let ?w = "w\<lparr>completion_time := f\<rparr>"
  let ?futs = "concat (map (\<lambda>i. case m i of
                                Some img \<Rightarrow> if img \<noteq> [] then [(i, img)] else []
                              | None \<Rightarrow> []) (pages_needing_ocr ts))"
  let ?val = "\<lambda>j. if length (strip (ts ! j)) < 20
            then (case m j of
                    Some img \<Rightarrow> if img \<noteq> [] then ocr_image w img 8
                                else ''[NO IMAGE AVAILABLE FOR OCR]''
                  | None \<Rightarrow> ''[NO IMAGE AVAILABLE FOR OCR]'')
            else ts ! j"
  from ocr_phase_result [of w m ts] obtain a where
    a: "ocr_phase w m (pages_needing_ocr ts) ts = Inr (a, ?futs)"
    and la: "length a = length ts" and na: "\<forall>j<length ts. a ! j = ?val j"
    by blast
  from ocr_phase_result [of ?w m ts] obtain b where
    b: "ocr_phase ?w m (pages_needing_ocr ts) ts = Inr (b, ?futs)"
    and lb: "length b = length ts" and nb: "\<forall>j<length ts. b ! j = ?val j"
    unfolding ocr_image_completion_time by blast
  have "a = b" using la lb na nb by (intro nth_equalityI) simp_all
  with a b show ?thesis by simp
qed

lemma convert_pdf_to_images_completion_time:
  "convert_pdf_to_images (w\<lparr>completion_time := f\<rparr>) dpi = convert_pdf_to_images w dpi"
  by (cases "pdftoppm w dpi") (simp_all add: convert_pdf_to_images_def)

lemma extract_pdf_completion_time:
  "extract_pdf (w\<lparr>completion_time := f\<rparr>) = extract_pdf w"
  by (simp add: extract_pdf_def Let_def ocr_phase_completion_time extract_loop_all
        convert_pdf_to_images_completion_time cong: sum.case_cong prod.case_cong)

section \<open>The example requests, run\<close>

lemma scan_world_run:
  "extract_pdf scan_world =
     (Inr \<lparr> status = ''success'', page_count = 3, ocr_used = True,
            pages = [\<lparr> page_number = 1, page_text = ''Patient: A. Mensah, age 54'' \<rparr>,
                     \<lparr> page_number = 2, page_text = ''Creatinine 1.9 mg/dL'' \<rparr>,
                     \<lparr> page_number = 3, page_text = ''eGFR 38 mL/min/1.73 m2'' \<rparr>],
            full_text = ''Patient: A. Mensah, age 54\<newline>\<newline>Creatinine 1.9 mg/dL\<newline>\<newline>eGFR 38 mL/min/1.73 m2'' \<rparr>,
      [SaveUpload, OpenPdf, ExtractText 0, ExtractText 1, ExtractText 2, RunPdftoppm,
       SubmitOcr 1 ''page-2.jpg''])"
  by code_simp

lemma text_world_run:
  "extract_pdf text_world =
     (Inr \<lparr> status = ''success'', page_count = 2, ocr_used = False,
            pages = [\<lparr> page_number = 1, page_text = ''Patient: A. Mensah, age 54'' \<rparr>,
                     \<lparr> page_number = 2, page_text = ''eGFR 38 mL/min/1.73 m2'' \<rparr>],
            full_text = ''Patient: A. Mensah, age 54\<newline>\<newline>eGFR 38 mL/min/1.73 m2'' \<rparr>,
      [SaveUpload, OpenPdf, ExtractText 0, ExtractText 1, RunPdftoppm])"
  by code_simp

lemma failed_raster_world_run:
  "extract_pdf failed_raster_world =
     (Inr \<lparr> status = ''success'', page_count = 3, ocr_used = True,
            pages = [\<lparr> page_number = 1, page_text = ''Patient: A. Mensah, age 54'' \<rparr>,
                     \<lparr> page_number = 2, page_text = ''[NO IMAGE AVAILABLE FOR OCR]'' \<rparr>,
                     \<lparr> page_number = 3, page_text = ''eGFR 38 mL/min/1.73 m2'' \<rparr>],
            full_text = ''Patient: A. Mensah, age 54\<newline>\<newline>[NO IMAGE AVAILABLE FOR OCR]\<newline>\<newline>eGFR 38 mL/min/1.73 m2'' \<rparr>,
      [SaveUpload, OpenPdf, ExtractText 0, ExtractText 1, ExtractText 2, RunPdftoppm])"
  by code_simp

lemma odd_output_world_run:
  "extract_pdf odd_output_world =
     (Inl ValueError,
      [SaveUpload, OpenPdf, ExtractText 0, ExtractText 1, ExtractText 2, RunPdftoppm])"
  by code_simp

lemma raising_page_world_run:
  "extract_pdf raising_page_world =
     (Inr \<lparr> status = ''success'', page_count = 3, ocr_used = True,
            pages = [\<lparr> page_number = 1, page_text = ''Patient: A. Mensah, age 54'' \<rparr>,
                     \<lparr> page_number = 2, page_text = ''Creatinine 1.9 mg/dL'' \<rparr>,
                     \<lparr> page_number = 3, page_text = ''eGFR 38 mL/min/1.73 m2'' \<rparr>],
            full_text = ''Patient: A. Mensah, age 54\<newline>\<newline>Creatinine 1.9 mg/dL\<newline>\<newline>eGFR 38 mL/min/1.73 m2'' \<rparr>,
      [SaveUpload, OpenPdf, ExtractText 0, ExtractText 1, ExtractText 2, RunPdftoppm,
       SubmitOcr 1 ''page-2.jpg''])"
  by code_simp

lemma accepted_examples:
  "endswith (lower (filename scan_world)) ''.pdf''"
  "endswith (lower (filename text_world)) ''.pdf''"
  "endswith (lower (filename failed_raster_world)) ''.pdf''"
  "endswith (lower (filename odd_output_world)) ''.pdf''"
  "endswith (lower (filename extra_images_world)) ''.pdf''"
  "endswith (lower (filename raising_page_world)) ''.pdf''"
  "endswith (lower (filename two_scans_world)) ''.pdf''"
  by code_simp+

section \<open>The page classifier decides by the trimmed length\<close>

text \<open>
  C2. A page text is \<open>Sufficient\<close> exactly when its trimmed length is at least 20: trimmed
  length 19 gives \<open>NeedsOcr\<close> and trimmed length 20 gives \<open>Sufficient\<close>. The pages that
  line 146 sends to OCR are exactly those the classifier calls \<open>NeedsOcr\<close>.
\<close>

theorem classify_threshold:
  "(classify t = Sufficient \<longleftrightarrow> 20 \<le> length (strip t))
   \<and> (length (strip t) = 19 \<longrightarrow> classify t = NeedsOcr)
   \<and> (length (strip t) = 20 \<longrightarrow> classify t = Sufficient)
   \<and> (\<forall>ts i. i < length ts \<and> ts ! i = t \<longrightarrow>
         (i \<in> set (pages_needing_ocr ts) \<longleftrightarrow> classify t = NeedsOcr))"
  by (auto simp: classify_def set_pages_needing_ocr)

theorem classify_threshold_witness:
  "length (strip '' abcdefghijklmnopqrs '') = 19
   \<and> classify '' abcdefghijklmnopqrs '' = NeedsOcr
   \<and> length (strip ''abcdefghijklmnopqrst '') = 20
   \<and> classify ''abcdefghijklmnopqrst '' = Sufficient
   \<and> 1 \<in> set (pages_needing_ocr [''abcdefghijklmnopqrst '', '' abcdefghijklmnopqrs ''])"
proof -
  have a: "length (strip '' abcdefghijklmnopqrs '') = 19" by code_simp
  have b: "length (strip ''abcdefghijklmnopqrst '') = 20" by code_simp
  have c: "(1::nat) < length [''abcdefghijklmnopqrst '', '' abcdefghijklmnopqrs '']
            \<and> [''abcdefghijklmnopqrst '', '' abcdefghijklmnopqrs ''] ! 1 = '' abcdefghijklmnopqrs ''"
    by simp
  from classify_threshold [of "'' abcdefghijklmnopqrs ''"] a c
  have 1: "classify '' abcdefghijklmnopqrs '' = NeedsOcr"
    and 2: "1 \<in> set (pages_needing_ocr [''abcdefghijklmnopqrst '', '' abcdefghijklmnopqrs ''])"
    by blast+
  from classify_threshold [of "''abcdefghijklmnopqrst ''"] b
  have 3: "classify ''abcdefghijklmnopqrst '' = Sufficient" by blast
  from a b 1 2 3 show ?thesis by blast
qed

section \<open>The OCR adapter returns a string on every path\<close>

text \<open>
  \<^verbatim>\<open>ocr_image\<close> is a total function into strings, for every image and timeout: a timeout
  gives \<^verbatim>\<open>[OCR TIMEOUT]\<close>, any other exception of the call gives \<^verbatim>\<open>[OCR ERROR]\<close> followed by
  its message, a completed call whose output is all whitespace (or empty) gives
  \<^verbatim>\<open>[OCR EMPTY]\<close>, and any other output is returned without its surrounding whitespace.
  The result is never the empty string.
\<close>

lemma ocr_image_cases:
  "(tesseract w image_path timeout_sec = TimeoutExpired \<longrightarrow>
      ocr_image w image_path timeout_sec = ''[OCR TIMEOUT]'')
   \<and> (\<forall>e. tesseract w image_path timeout_sec = OtherException e \<longrightarrow>
      ocr_image w image_path timeout_sec = ''[OCR ERROR] '' @ e)
   \<and> (\<forall>rc out. tesseract w image_path timeout_sec = CompletedProcess rc out \<longrightarrow>
        (list_all is_space out \<longrightarrow> ocr_image w image_path timeout_sec = ''[OCR EMPTY]'')
        \<and> (\<not> list_all is_space out \<longrightarrow>
             ocr_image w image_path timeout_sec = strip out
             \<and> strip out \<noteq> []
             \<and> \<not> is_space (hd (strip out)) \<and> \<not> is_space (last (strip out))
             \<and> (\<exists>l r. out = l @ strip out @ r \<and> list_all is_space l \<and> list_all is_space r)))
   \<and> ocr_image w image_path timeout_sec \<noteq> []"
proof -
  have "strip out \<noteq> [] \<Longrightarrow> \<not> is_space (hd (strip out)) \<and> \<not> is_space (last (strip out))" for out
    using strip_hd strip_last by blast
  then show ?thesis
    using strip_decomp
    by (cases "tesseract w image_path timeout_sec")
       (auto simp: ocr_image_def Let_def strip_empty_iff simp flip: strip_empty_iff)
qed

lemma ocr_image_examples:
  "tesseract scan_world ''page-9.jpg'' 8 = TimeoutExpired
   \<and> ocr_image scan_world ''page-9.jpg'' 8 = ''[OCR TIMEOUT]''
   \<and> tesseract scan_world ''page-1.jpg'' 8 = OtherException ''cannot read image''
   \<and> ocr_image scan_world ''page-1.jpg'' 8 = ''[OCR ERROR] cannot read image''
   \<and> tesseract scan_world ''page-3.jpg'' 8 = CompletedProcess 1 ''  ''
   \<and> list_all is_space ''  ''
   \<and> ocr_image scan_world ''page-3.jpg'' 8 = ''[OCR EMPTY]''
   \<and> tesseract scan_world ''page-2.jpg'' 8 = CompletedProcess 0 '' Creatinine 1.9 mg/dL  ''
   \<and> \<not> list_all is_space '' Creatinine 1.9 mg/dL  ''
   \<and> ocr_image scan_world ''page-2.jpg'' 8 = ''Creatinine 1.9 mg/dL''"
proof -
  have t9: "tesseract scan_world ''page-9.jpg'' 8 = TimeoutExpired"
    by (simp add: scan_world_def)
  have t1: "tesseract scan_world ''page-1.jpg'' 8 = OtherException ''cannot read image''"
    by (simp add: scan_world_def)
  have t3: "tesseract scan_world ''page-3.jpg'' 8 = CompletedProcess 1 ''  ''"
    by (simp add: scan_world_def)
  have t2: "tesseract scan_world ''page-2.jpg'' 8 = CompletedProcess 0 '' Creatinine 1.9 mg/dL  ''"
    by (simp add: scan_world_def)
  have s3: "list_all is_space ''  ''" by code_simp
  have s2: "\<not> list_all is_space '' Creatinine 1.9 mg/dL  ''" by code_simp
  have v2: "strip '' Creatinine 1.9 mg/dL  '' = ''Creatinine 1.9 mg/dL''" by code_simp
  from ocr_image_cases [of scan_world "''page-9.jpg''" 8] t9
  have r9: "ocr_image scan_world ''page-9.jpg'' 8 = ''[OCR TIMEOUT]''" by blast
  from ocr_image_cases [of scan_world "''page-1.jpg''" 8] t1
  have r1: "ocr_image scan_world ''page-1.jpg'' 8 = ''[OCR ERROR] '' @ ''cannot read image''"
    by blast
  from ocr_image_cases [of scan_world "''page-3.jpg''" 8] t3 s3
  have r3: "ocr_image scan_world ''page-3.jpg'' 8 = ''[OCR EMPTY]''" by blast
  from ocr_image_cases [of scan_world "''page-2.jpg''" 8] t2 s2
  have r2: "ocr_image scan_world ''page-2.jpg'' 8 = strip '' Creatinine 1.9 mg/dL  ''" by blast
  from t9 t1 t3 t2 s3 s2 r9 r1 r3 r2 v2 show ?thesis by simp
qed

text \<open>
  C4. The adapter is to answer a timeout by \<^verbatim>\<open>[OCR TIMEOUT]\<close>, any other failure of the
  invocation (a process error, an I/O error) by \<^verbatim>\<open>[OCR ERROR]\<close> and its cause, an empty
  output of a successful invocation by \<^verbatim>\<open>[OCR EMPTY]\<close>, and to return the trimmed text
  otherwise. The code does so for the exceptions of the call, but the call of lines 86 to 92
  does not set \<^verbatim>\<open>check=True\<close> (the call of \<^verbatim>\<open>pdftoppm\<close>, line 68, does), so a
  \<^verbatim>\<open>tesseract\<close> that ends with return code 1 counts as a completed call: with blank output
  the answer is \<^verbatim>\<open>[OCR EMPTY]\<close>, not \<^verbatim>\<open>[OCR ERROR]\<close>.
\<close>

theorem tesseract_exit_code_ignored:
  "tesseract scan_world ''page-3.jpg'' 8 = CompletedProcess 1 ''  ''
   \<and> ocr_image scan_world ''page-3.jpg'' 8 = ''[OCR EMPTY]''
   \<and> take 11 (ocr_image scan_world ''page-3.jpg'' 8) \<noteq> ''[OCR ERROR]''"
proof -
  have "tesseract scan_world ''page-3.jpg'' 8 = CompletedProcess 1 ''  ''"
    by (simp add: scan_world_def)
  moreover have e: "ocr_image scan_world ''page-3.jpg'' 8 = ''[OCR EMPTY]''" by code_simp
  moreover have "take 11 (ocr_image scan_world ''page-3.jpg'' 8) \<noteq> ''[OCR ERROR]''"
    unfolding e by simp
  ultimately show ?thesis by blast
qed

section \<open>Uploads that are not named as a PDF\<close>

text \<open>
  C9. When the file name of the upload, in lower case, does not end in \<^verbatim>\<open>.pdf\<close>, the
  request is answered by the HTTP error 400 and nothing has been done before: the upload is
  not saved, no PDF is opened, no page is read, no image is made and no OCR runs.
\<close>

theorem reject_non_pdf:
  "\<not> endswith (lower (filename w)) ''.pdf'' \<Longrightarrow>
     extract_pdf w = (Inl (HTTPException 400 ''File must be a PDF''), [])"
  by (simp add: extract_pdf_def)

theorem reject_non_pdf_witness:
  "\<not> endswith (lower (filename txt_world)) ''.pdf''
   \<and> extract_pdf txt_world = (Inl (HTTPException 400 ''File must be a PDF''), [])"
proof -
  have h: "\<not> endswith (lower (filename txt_world)) ''.pdf''" by code_simp
  from reject_non_pdf [OF h] h show ?thesis by simp
qed

section \<open>Every page of the response carries a text\<close>

text \<open>
  C3. When the upload is accepted and the PDF opens, a response that \<^verbatim>\<open>extract_pdf\<close> returns
  has one entry per page, numbered 1, 2, ... in page order, and the text of every entry is
  set: it is never the empty string the array starts with, and it is the direct text of a
  page with 20 or more trimmed characters, or the sentinel
  \<^verbatim>\<open>[NO IMAGE AVAILABLE FOR OCR]\<close>, or what \<^verbatim>\<open>ocr_image\<close> returned for an image of the
  rasterizer (recognized text or one of its own sentinels).
\<close>

theorem pages_fully_populated:
  assumes "endswith (lower (filename w)) ''.pdf''" and "reader w = Inr ps"
    and "fst (extract_pdf w) = Inr r"
  shows "page_count r = length ps
       \<and> length (pages r) = length ps
       \<and> map page_number (pages r) = [1..<length ps + 1]
       \<and> (\<forall>i<length ps.
             page_text (pages r ! i) \<noteq> []
           \<and> (page_text (pages r ! i) = direct_text (ps ! i)
                \<and> 20 \<le> length (strip (direct_text (ps ! i)))
              \<or> page_text (pages r ! i) = ''[NO IMAGE AVAILABLE FOR OCR]''
              \<or> (\<exists>img\<in>set (output_files w). page_text (pages r ! i) = ocr_image w img 8)))"
proof (cases "convert_pdf_to_images w 200")
  case (Inl e)
  from extract_pdf_ValueError [OF assms(1,2) Inl] assms(3) show ?thesis by simp
next
  case (Inr image_paths)
  from extract_pdf_success [OF assms(1,2) Inr] obtain m final where
    inv: "\<forall>k img. m k = Some img \<longrightarrow>
            k < length ps \<and> img \<in> set image_paths \<and> page_no img = Some (int k + 1)"
    and e: "fst (extract_pdf w)
              = Inr (build_response (length ps)
                       (pages_needing_ocr (map direct_text ps) \<noteq> []) final)"
    and lf: "length final = length ps"
    and nf: "\<forall>j<length ps. final ! j =
               (if length (strip (direct_text (ps ! j))) < 20
                then (case m j of
                        Some img \<Rightarrow> ocr_image w img 8
                      | None \<Rightarrow> ''[NO IMAGE AVAILABLE FOR OCR]'')
                else direct_text (ps ! j))"
    by force
  from e assms(3)
  have r: "r = build_response (length ps) (pages_needing_ocr (map direct_text ps) \<noteq> []) final"
    by simp
  have files: "img \<in> set (output_files w)" if "m k = Some img" for k img
    using inv that convert_pdf_to_images_Inr [OF Inr] by blast
  have "page_text (pages r ! i) \<noteq> []
           \<and> (page_text (pages r ! i) = direct_text (ps ! i)
                \<and> 20 \<le> length (strip (direct_text (ps ! i)))
              \<or> page_text (pages r ! i) = ''[NO IMAGE AVAILABLE FOR OCR]''
              \<or> (\<exists>img\<in>set (output_files w). page_text (pages r ! i) = ocr_image w img 8))"
    if i: "i < length ps" for i
  proof -
    from i have t: "page_text (pages r ! i) = final ! i"
      by (simp add: r pages_build_response)
    show ?thesis
    proof (cases "length (strip (direct_text (ps ! i))) < 20")
      case False
      with nf i t have "page_text (pages r ! i) = direct_text (ps ! i)" by simp
      moreover from False have "direct_text (ps ! i) \<noteq> []"
        by (auto simp: strip_Nil)
      ultimately show ?thesis using False by simp
    next
      case True
      show ?thesis
      proof (cases "m i")
        case None
        with nf i t True show ?thesis by simp
      next
        case (Some img)
        with nf i t True have "page_text (pages r ! i) = ocr_image w img 8" by simp
        with files [OF Some] show ?thesis by (auto simp: ocr_image_nonempty)
      qed
    qed
  qed
  then show ?thesis by (simp add: r pages_build_response)
qed

theorem pages_fully_populated_witness:
  "endswith (lower (filename scan_world)) ''.pdf''
   \<and> reader scan_world = Inr [Returns ''Patient: A. Mensah, age 54 '', Returns [],
                              Returns ''eGFR 38 mL/min/1.73 m2'']
   \<and> fst (extract_pdf scan_world) =
       Inr \<lparr> status = ''success'', page_count = 3, ocr_used = True,
            pages = [\<lparr> page_number = 1, page_text = ''Patient: A. Mensah, age 54'' \<rparr>,
                     \<lparr> page_number = 2, page_text = ''Creatinine 1.9 mg/dL'' \<rparr>,
                     \<lparr> page_number = 3, page_text = ''eGFR 38 mL/min/1.73 m2'' \<rparr>],
            full_text = ''Patient: A. Mensah, age 54\<newline>\<newline>Creatinine 1.9 mg/dL\<newline>\<newline>eGFR 38 mL/min/1.73 m2'' \<rparr>
   \<and> map page_number (pages \<lparr> status = ''success'', page_count = 3, ocr_used = True,
            pages = [\<lparr> page_number = 1, page_text = ''Patient: A. Mensah, age 54'' \<rparr>,
                     \<lparr> page_number = 2, page_text = ''Creatinine 1.9 mg/dL'' \<rparr>,
                     \<lparr> page_number = 3, page_text = ''eGFR 38 mL/min/1.73 m2'' \<rparr>],
            full_text = ''Patient: A. Mensah, age 54\<newline>\<newline>Creatinine 1.9 mg/dL\<newline>\<newline>eGFR 38 mL/min/1.73 m2'' \<rparr>)
       = [1..<length [Returns ''Patient: A. Mensah, age 54 '', Returns [],
                      Returns ''eGFR 38 mL/min/1.73 m2''] + 1]"
proof -
  have h1: "endswith (lower (filename scan_world)) ''.pdf''" by (rule accepted_examples)
  have h2: "reader scan_world = Inr [Returns ''Patient: A. Mensah, age 54 '', Returns [],
                                     Returns ''eGFR 38 mL/min/1.73 m2'']"
    by (simp add: scan_world_def)
  have h3: "fst (extract_pdf scan_world) =
     Inr \<lparr> status = ''success'', page_count = 3, ocr_used = True,
            pages = [\<lparr> page_number = 1, page_text = ''Patient: A. Mensah, age 54'' \<rparr>,
                     \<lparr> page_number = 2, page_text = ''Creatinine 1.9 mg/dL'' \<rparr>,
                     \<lparr> page_number = 3, page_text = ''eGFR 38 mL/min/1.73 m2'' \<rparr>],
            full_text = ''Patient: A. Mensah, age 54\<newline>\<newline>Creatinine 1.9 mg/dL\<newline>\<newline>eGFR 38 mL/min/1.73 m2'' \<rparr>"
    by (simp add: scan_world_run)
  from pages_fully_populated [OF h1 h2 h3] h1 h2 h3 show ?thesis by blast
qed

section \<open>A document whose pages all carry text\<close>

text \<open>
  C1 as stated fails: on a document whose two pages both have 20 or more
  trimmed characters of direct text, \<^verbatim>\<open>pdftoppm\<close> is still run (line 136 comes before the
  test of line 153).
\<close>

theorem text_only_still_rasterized:
  "reader text_world = Inr [Returns ''Patient: A. Mensah, age 54 '',
                            Returns ''eGFR 38 mL/min/1.73 m2'']
   \<and> 20 \<le> length (strip ''Patient: A. Mensah, age 54 '')
   \<and> 20 \<le> length (strip ''eGFR 38 mL/min/1.73 m2'')
   \<and> RunPdftoppm \<in> set (snd (extract_pdf text_world))"
proof -
  have "reader text_world = Inr [Returns ''Patient: A. Mensah, age 54 '',
                                 Returns ''eGFR 38 mL/min/1.73 m2'']"
    by (simp add: text_world_def)
  moreover have "20 \<le> length (strip ''Patient: A. Mensah, age 54 '')" by code_simp
  moreover have "20 \<le> length (strip ''eGFR 38 mL/min/1.73 m2'')" by code_simp
  moreover have "RunPdftoppm \<in> set (snd (extract_pdf text_world))"
    by (simp add: text_world_run)
  ultimately show ?thesis by blast
qed

text \<open>
  C1, amended. When every page of an accepted document has direct text of trimmed length
  20 or more, no OCR task is submitted and a returned response has \<^verbatim>\<open>ocr_used\<close> false and
  the direct texts as its page texts; the rasterizer is run all the same, once, after the
  pages are read, and the request returns unless the rasterizer's file names fail to parse.
\<close>

theorem text_only_no_ocr:
  assumes "endswith (lower (filename w)) ''.pdf''" and "reader w = Inr ps"
    and "\<forall>p\<in>set ps. classify (direct_text p) = Sufficient"
  shows "snd (extract_pdf w)
           = [SaveUpload, OpenPdf] @ map ExtractText [0..<length ps] @ [RunPdftoppm]
       \<and> (\<forall>r. fst (extract_pdf w) = Inr r \<longrightarrow>
              \<not> ocr_used r \<and> map page_text (pages r) = map direct_text ps)
       \<and> (convert_pdf_to_images w 200 \<noteq> Inl ValueError \<longrightarrow> (\<exists>r. fst (extract_pdf w) = Inr r))"
proof (cases "convert_pdf_to_images w 200")
  case (Inl e)
  from convert_pdf_to_images_Inl [OF Inl] have "e = ValueError" by simp
  with Inl extract_pdf_ValueError [OF assms(1,2) Inl] show ?thesis by simp
next
  case (Inr image_paths)
  have n: "pages_needing_ocr (map direct_text ps) = []"
    by (rule pages_needing_ocr_empty [OF assms(3)])
  from extract_pdf_success [OF assms(1,2) Inr] obtain m final where
    e: "extract_pdf w = (Inr (build_response (length ps) False final),
              [SaveUpload, OpenPdf] @ map ExtractText [0..<length ps] @ [RunPdftoppm])"
    and lf: "length final = length ps"
    and nf: "\<forall>j<length ps. final ! j =
               (if length (strip (direct_text (ps ! j))) < 20
                then (case m j of
                        Some img \<Rightarrow> ocr_image w img 8
                      | None \<Rightarrow> ''[NO IMAGE AVAILABLE FOR OCR]'')
                else direct_text (ps ! j))"
    unfolding n by auto
  have "final ! j = direct_text (ps ! j)" if "j < length ps" for j
  proof -
    from that have "classify (direct_text (ps ! j)) = Sufficient" using assms(3) by simp
    then have "\<not> length (strip (direct_text (ps ! j))) < 20"
      by (simp add: classify_def split: if_splits)
    with nf that show ?thesis by simp
  qed
  then have f: "final = map direct_text ps"
    using lf by (intro nth_equalityI) simp_all
  have "map page_text (pages (build_response (length ps) False final)) = final"
    using lf by (intro nth_equalityI) (simp_all add: pages_build_response)
  with e f show ?thesis by (simp add: pages_build_response)
qed

theorem text_only_no_ocr_witness:
  "endswith (lower (filename text_world)) ''.pdf''
   \<and> reader text_world = Inr [Returns ''Patient: A. Mensah, age 54 '',
                              Returns ''eGFR 38 mL/min/1.73 m2'']
   \<and> classify (direct_text (Returns ''Patient: A. Mensah, age 54 '')) = Sufficient
   \<and> classify (direct_text (Returns ''eGFR 38 mL/min/1.73 m2'')) = Sufficient
   \<and> snd (extract_pdf text_world)
       = [SaveUpload, OpenPdf, ExtractText 0, ExtractText 1, RunPdftoppm]"
proof -
  have h1: "endswith (lower (filename text_world)) ''.pdf''" by (rule accepted_examples)
  have h2: "reader text_world = Inr [Returns ''Patient: A. Mensah, age 54 '',
                                     Returns ''eGFR 38 mL/min/1.73 m2'']"
    by (simp add: text_world_def)
  have c1: "classify (direct_text (Returns ''Patient: A. Mensah, age 54 '')) = Sufficient"
    by code_simp
  have c2: "classify (direct_text (Returns ''eGFR 38 mL/min/1.73 m2'')) = Sufficient"
    by code_simp
  have h3: "\<forall>p\<in>set [Returns ''Patient: A. Mensah, age 54 '',
                      Returns ''eGFR 38 mL/min/1.73 m2'']. classify (direct_text p) = Sufficient"
    using c1 c2 by simp
  from text_only_no_ocr [OF h1 h2 h3]
  have "snd (extract_pdf text_world)
          = [SaveUpload, OpenPdf] @ map ExtractText [0..<length [Returns ''Patient: A. Mensah, age 54 '',
                      Returns ''eGFR 38 mL/min/1.73 m2'']] @ [RunPdftoppm]"
    by blast
  then have "snd (extract_pdf text_world)
       = [SaveUpload, OpenPdf, ExtractText 0, ExtractText 1, RunPdftoppm]"
    by (simp add: upt_rec)
  with h1 h2 c1 c2 show ?thesis by blast
qed

section \<open>A rasterizer that fails\<close>

text \<open>
  C5 as stated fails for unexpected output: when \<^verbatim>\<open>pdftoppm\<close> exits with
  code 0 and leaves a file \<^verbatim>\<open>page-x.jpg\<close>, the sort key of line 75 raises \<^verbatim>\<open>ValueError\<close>
  outside the \<^verbatim>\<open>try\<close>; the adapter returns no sequence and the request ends with that
  exception.
\<close>

theorem odd_output_aborts:
  "pdftoppm odd_output_world 200 = CompletedProcess 0 []
   \<and> output_files odd_output_world = [''page-1.jpg'', ''page-x.jpg'']
   \<and> convert_pdf_to_images odd_output_world 200 = Inl ValueError
   \<and> fst (extract_pdf odd_output_world) = Inl ValueError"
proof -
  have "pdftoppm odd_output_world 200 = CompletedProcess 0 []"
    by (simp add: odd_output_world_def scan_world_def)
  moreover have "output_files odd_output_world = [''page-1.jpg'', ''page-x.jpg'']"
    by (simp add: odd_output_world_def)
  moreover have "convert_pdf_to_images odd_output_world 200 = Inl ValueError" by code_simp
  moreover have "fst (extract_pdf odd_output_world) = Inl ValueError"
    by (simp add: odd_output_world_run)
  ultimately show ?thesis by blast
qed

text \<open>
  C5, amended. When the call of \<^verbatim>\<open>pdftoppm\<close> raises (a return code other than 0, a timeout,
  any other exception) or leaves no file named \<^verbatim>\<open>page-*.jpg\<close>, the adapter returns the
  empty sequence; the request then succeeds, no OCR task is submitted, every page classified
  \<open>NeedsOcr\<close> reads exactly \<^verbatim>\<open>[NO IMAGE AVAILABLE FOR OCR]\<close> and every other page keeps its
  direct text.
\<close>

theorem raster_failure_is_soft:
  assumes "endswith (lower (filename w)) ''.pdf''" and "reader w = Inr ps"
    and "(\<forall>out. pdftoppm w 200 \<noteq> CompletedProcess 0 out)
         \<or> filter glob_match (output_files w) = []"
  shows "convert_pdf_to_images w 200 = Inr []
       \<and> (\<exists>r. extract_pdf w
                 = (Inr r, [SaveUpload, OpenPdf] @ map ExtractText [0..<length ps] @ [RunPdftoppm])
              \<and> length (pages r) = length ps
              \<and> (\<forall>i<length ps. page_text (pages r ! i) =
                    (if classify (direct_text (ps ! i)) = NeedsOcr
                     then ''[NO IMAGE AVAILABLE FOR OCR]'' else direct_text (ps ! i))))"
proof -
  from assms(3) have c: "convert_pdf_to_images w 200 = Inr []"
    using convert_pdf_to_images_failed convert_pdf_to_images_no_files by blast
  from extract_pdf_success [OF assms(1,2) c] obtain final where
    e: "extract_pdf w =
             (Inr (build_response (length ps)
                     (pages_needing_ocr (map direct_text ps) \<noteq> []) final),
              [SaveUpload, OpenPdf] @ map ExtractText [0..<length ps] @ [RunPdftoppm])"
    and nf: "\<forall>j<length ps. final ! j =
               (if length (strip (direct_text (ps ! j))) < 20
                then ''[NO IMAGE AVAILABLE FOR OCR]''
                else direct_text (ps ! j))"
    by auto
  let ?r = "build_response (length ps) (pages_needing_ocr (map direct_text ps) \<noteq> []) final"
  have "\<forall>i<length ps. page_text (pages ?r ! i) =
                    (if classify (direct_text (ps ! i)) = NeedsOcr
                     then ''[NO IMAGE AVAILABLE FOR OCR]'' else direct_text (ps ! i))"
    using nf by (simp add: pages_build_response classify_def)
  with c e show ?thesis by (simp add: pages_build_response)
qed

theorem raster_failure_is_soft_witness:
  "endswith (lower (filename failed_raster_world)) ''.pdf''
   \<and> reader failed_raster_world = Inr [Returns ''Patient: A. Mensah, age 54 '', Returns [],
                                       Returns ''eGFR 38 mL/min/1.73 m2'']
   \<and> pdftoppm failed_raster_world 200 = CompletedProcess 1 []
   \<and> convert_pdf_to_images failed_raster_world 200 = Inr []"
proof -
  have h1: "endswith (lower (filename failed_raster_world)) ''.pdf''"
    by (rule accepted_examples)
  have h2: "reader failed_raster_world = Inr [Returns ''Patient: A. Mensah, age 54 '', Returns [],
                                              Returns ''eGFR 38 mL/min/1.73 m2'']"
    by (simp add: failed_raster_world_def scan_world_def)
  have p: "pdftoppm failed_raster_world 200 = CompletedProcess 1 []"
    by (simp add: failed_raster_world_def)
  then have h3: "(\<forall>out. pdftoppm failed_raster_world 200 \<noteq> CompletedProcess 0 out)
                 \<or> filter glob_match (output_files failed_raster_world) = []"
    by simp
  from raster_failure_is_soft [OF h1 h2 h3] h1 h2 p show ?thesis by blast
qed

section \<open>The order in which OCR tasks complete\<close>

text \<open>
  C6. Take the tasks the loop of lines 157 to 162 submits for the pages that need OCR, and
  any two orders in which \<^verbatim>\<open>as_completed\<close> may yield them (two permutations of the
  submitted tasks). The loop of lines 165 to 170 ends with the same array of page texts for
  both. It does end with an array, of the length it started with, in which the slot of
  every submitted task's page index holds the result of that task and every other slot is
  as it was before the loop.
\<close>

theorem completion_order_irrelevant:
  assumes "submit_loop page_to_image (pages_needing_ocr ts) ts [] = Inr (ts1, futures)"
    and "mset order1 = mset futures" and "mset order2 = mset futures"
  shows "collect_loop w order1 ts1 = collect_loop w order2 ts1
       \<and> (\<exists>final. collect_loop w order1 ts1 = Inr final
             \<and> length final = length ts
             \<and> (\<forall>(idx, img)\<in>set futures.
                   idx < length ts \<and> fut_result w img = Inr (final ! idx))
             \<and> (\<forall>j<length ts. j \<notin> fst ` set futures \<longrightarrow> final ! j = ts1 ! j))"
proof -
  let ?needing = "pages_needing_ocr ts"
  let ?futs = "concat (map (\<lambda>i. case page_to_image i of
                                Some img \<Rightarrow> if img \<noteq> [] then [(i, img)] else []
                              | None \<Rightarrow> []) ?needing)"
  have bound: "\<forall>i\<in>set ?needing. i < length ts" by (simp add: set_pages_needing_ocr)
  from submit_loop_result [OF bound, of page_to_image "[]"] assms(1)
  have f: "futures = ?futs" and l1: "length ts1 = length ts" by auto
  have df: "distinct (map fst futures)"
    by (simp add: f fst_submitted distinct_pages_needing_ocr)
  from assms(2) have mm: "mset (map fst order1) = mset (map fst futures)" by simp
  have d1: "distinct (map fst order1)"
    using mset_eq_imp_distinct_iff [OF mm] df by blast
  from assms(2) have s1: "set order1 = set futures" by (rule mset_eq_setD)
  have bf: "idx < length ts" if "(idx, img) \<in> set futures" for idx img
    using that bound by (simp add: f set_submitted)
  have b1: "\<forall>(i, img)\<in>set order1. i < length ts1"
    using s1 l1 bf by auto
  from assms(2,3) have m12: "mset order1 = mset order2" by simp
  from collect_loop_perm [OF m12 d1 b1]
  have same: "collect_loop w order1 ts1 = collect_loop w order2 ts1" .
  from collect_loop_Inr [OF b1] obtain final where
    c: "collect_loop w order1 ts1 = Inr final" and lf: "length final = length ts1" by blast
  have own: "idx < length ts \<and> fut_result w img = Inr (final ! idx)"
    if m: "(idx, img) \<in> set futures" for idx img
  proof -
    from bf [OF m] l1 have i: "idx < length ts1" by simp
    from m s1 d1 have "map_of order1 idx = Some img" by simp
    with collect_loop_nth [OF d1 c i] have "final ! idx = ocr_image w img 8" by simp
    with bf [OF m] show ?thesis by (simp add: fut_result_def)
  qed
  have other: "final ! j = ts1 ! j" if j: "j < length ts" and n: "j \<notin> fst ` set futures" for j
  proof -
    from j l1 have j1: "j < length ts1" by simp
    from n s1 have "map_of order1 j = None" by (simp add: map_of_eq_None_iff)
    with collect_loop_nth [OF d1 c j1] show ?thesis by simp
  qed
  from c lf l1 own other
  have "\<exists>final. collect_loop w order1 ts1 = Inr final
             \<and> length final = length ts
             \<and> (\<forall>(idx, img)\<in>set futures.
                   idx < length ts \<and> fut_result w img = Inr (final ! idx))
             \<and> (\<forall>j<length ts. j \<notin> fst ` set futures \<longrightarrow> final ! j = ts1 ! j)"
    by (intro exI [of _ final]) auto
  with same show ?thesis by blast
qed

theorem completion_order_irrelevant_witness:
  "submit_loop [0 \<mapsto> ''page-1.jpg'', 2 \<mapsto> ''page-3.jpg'']
       (pages_needing_ocr [[], ''eGFR 38 mL/min/1.73 m2'', []])
       [[], ''eGFR 38 mL/min/1.73 m2'', []] []
     = Inr ([[], ''eGFR 38 mL/min/1.73 m2'', []], [(0, ''page-1.jpg''), (2, ''page-3.jpg'')])
   \<and> mset [(0::nat, ''page-1.jpg''), (2, ''page-3.jpg'')]
       = mset [(0::nat, ''page-1.jpg''), (2, ''page-3.jpg'')]
   \<and> mset [(2, ''page-3.jpg''), (0, ''page-1.jpg'')]
       = mset [(0::nat, ''page-1.jpg''), (2, ''page-3.jpg'')]
   \<and> collect_loop two_scans_world [(0, ''page-1.jpg''), (2, ''page-3.jpg'')]
         [[], ''eGFR 38 mL/min/1.73 m2'', []]
       = Inr [''Urea 11 mmol/L'', ''eGFR 38 mL/min/1.73 m2'', ''[OCR TIMEOUT]'']
   \<and> collect_loop two_scans_world [(2, ''page-3.jpg''), (0, ''page-1.jpg'')]
         [[], ''eGFR 38 mL/min/1.73 m2'', []]
       = Inr [''Urea 11 mmol/L'', ''eGFR 38 mL/min/1.73 m2'', ''[OCR TIMEOUT]'']"
proof -
  let ?ts = "[[], ''eGFR 38 mL/min/1.73 m2'', []]"
  let ?o1 = "[(0::nat, ''page-1.jpg''), (2, ''page-3.jpg'')]"
  let ?o2 = "[(2::nat, ''page-3.jpg''), (0, ''page-1.jpg'')]"
  have n: "pages_needing_ocr ?ts = [0, 2]" by code_simp
  have h1: "submit_loop [0 \<mapsto> ''page-1.jpg'', 2 \<mapsto> ''page-3.jpg''] (pages_needing_ocr ?ts) ?ts []
     = Inr (?ts, ?o1)"
    unfolding n by simp
  have h2: "mset ?o1 = mset ?o1" by simp
  have h3: "mset ?o2 = mset ?o1" by simp
  have r0: "fut_result two_scans_world ''page-1.jpg'' = Inr ''Urea 11 mmol/L''" by code_simp
  have r2: "fut_result two_scans_world ''page-3.jpg'' = Inr ''[OCR TIMEOUT]''" by code_simp
  from completion_order_irrelevant [OF h1 h2 h3, of two_scans_world] obtain final where
    e: "collect_loop two_scans_world ?o1 ?ts = collect_loop two_scans_world ?o2 ?ts"
    and c: "collect_loop two_scans_world ?o1 ?ts = Inr final"
    and l: "length final = length ?ts"
    and own: "\<forall>(idx, img)\<in>set ?o1.
                 idx < length ?ts \<and> fut_result two_scans_world img = Inr (final ! idx)"
    and other: "\<forall>j<length ?ts. j \<notin> fst ` set ?o1 \<longrightarrow> final ! j = ?ts ! j"
    by blast
  from own r0 r2 have f0: "final ! 0 = ''Urea 11 mmol/L''" and f2: "final ! 2 = ''[OCR TIMEOUT]''"
    by simp_all
  from other have f1: "final ! 1 = ''eGFR 38 mL/min/1.73 m2''" by simp
  from l have "length final = 3" by simp
  then obtain a b d where abd: "final = [a, b, d]"
    by (metis length_0_conv length_Suc_conv numeral_3_eq_3)
  with f0 f1 f2 have "final = [''Urea 11 mmol/L'', ''eGFR 38 mL/min/1.73 m2'', ''[OCR TIMEOUT]'']"
    by simp
  with c e h1 h2 h3 show ?thesis by simp
qed

section \<open>One scanned page among pages with text\<close>

text \<open>
  What a returned response looks like for a document of three pages where the first and
  the third have direct text of 20 or more trimmed characters and the second has none: the
  second page either has an image numbered 2, for which the one task is submitted, or it
  reads \<^verbatim>\<open>[NO IMAGE AVAILABLE FOR OCR]\<close> and no task is submitted.
\<close>

lemma one_scan_cases:
  assumes "endswith (lower (filename w)) ''.pdf''" and "reader w = Inr [p1, p2, p3]"
    and "classify (direct_text p1) = Sufficient" and "direct_text p2 = []"
    and "classify (direct_text p3) = Sufficient"
    and "fst (extract_pdf w) = Inr r"
  shows "ocr_used r
       \<and> page_text (pages r ! 0) = direct_text p1
       \<and> page_text (pages r ! 2) = direct_text p3
       \<and> ((\<exists>img\<in>set (output_files w).
              page_no img = Some 2
            \<and> snd (extract_pdf w)
                = [SaveUpload, OpenPdf, ExtractText 0, ExtractText 1, ExtractText 2, RunPdftoppm,
                   SubmitOcr 1 img]
            \<and> page_text (pages r ! 1) = ocr_image w img 8)
          \<or> ((\<forall>imgs. convert_pdf_to_images w 200 = Inr imgs \<longrightarrow>
                  (\<forall>img\<in>set imgs. page_no img \<noteq> Some 2))
            \<and> snd (extract_pdf w)
                = [SaveUpload, OpenPdf, ExtractText 0, ExtractText 1, ExtractText 2, RunPdftoppm]
            \<and> page_text (pages r ! 1) = ''[NO IMAGE AVAILABLE FOR OCR]''))"
proof (cases "convert_pdf_to_images w 200")
  case (Inl e)
  from extract_pdf_ValueError [OF assms(1,2) Inl] assms(6) show ?thesis by simp
next
  case (Inr image_paths)
  let ?ps = "[p1, p2, p3]"
  have s1: "\<not> length (strip (direct_text p1)) < 20" and s3: "\<not> length (strip (direct_text p3)) < 20"
    using assms(3,5) by (simp_all add: classify_def split: if_splits)
  have s2: "length (strip (direct_text p2)) < 20" by (simp add: assms(4) strip_Nil)
  have up3: "[0..<length (map direct_text ?ps)] = [0, 1, 2]" by (simp add: upt_rec)
  have n: "pages_needing_ocr (map direct_text ?ps) = [1]"
    unfolding pages_needing_ocr_filter up3 using s1 s2 s3 by simp
  from extract_pdf_success [OF assms(1,2) Inr] obtain m final where
    mi: "match_images (length ?ps) image_paths Map.empty = Inr m"
    and inv: "\<forall>k img. m k = Some img \<longrightarrow>
            k < length ?ps \<and> img \<in> set image_paths \<and> page_no img = Some (int k + 1)"
    and e0: "extract_pdf w =
             (Inr (build_response (length ?ps)
                     (pages_needing_ocr (map direct_text ?ps) \<noteq> []) final),
              [SaveUpload, OpenPdf] @ map ExtractText [0..<length ?ps] @ [RunPdftoppm]
                @ map (\<lambda>(idx, img). SubmitOcr idx img)
                    (concat (map (\<lambda>i. case m i of
                                         Some img \<Rightarrow> [(i, img)] | None \<Rightarrow> [])
                               (pages_needing_ocr (map direct_text ?ps)))))"
    and lf: "length final = length ?ps"
    and nf: "\<forall>j<length ?ps. final ! j =
               (if length (strip (direct_text (?ps ! j))) < 20
                then (case m j of
                        Some img \<Rightarrow> ocr_image w img 8
                      | None \<Rightarrow> ''[NO IMAGE AVAILABLE FOR OCR]'')
                else direct_text (?ps ! j))"
    by blast
  have up: "[0..<3] = [0, 1, 2]" by (simp add: upt_rec)
  from e0 have e: "extract_pdf w =
             (Inr (build_response 3 True final),
              [SaveUpload, OpenPdf, ExtractText 0, ExtractText 1, ExtractText 2, RunPdftoppm]
                @ map (\<lambda>(idx, img). SubmitOcr idx img)
                    (case m 1 of Some img \<Rightarrow> [(1, img)] | None \<Rightarrow> []))"
    unfolding n by (simp add: up numeral_3_eq_3 split: option.splits)
  from e assms(6) have r: "r = build_response 3 True final" by simp
  from nf s1 have f0: "final ! 0 = direct_text p1" by simp
  from nf s3 have f2: "final ! 2 = direct_text p3" by simp
  from nf s2 have f1: "final ! 1 = (case m 1 of
                        Some img \<Rightarrow> ocr_image w img 8
                      | None \<Rightarrow> ''[NO IMAGE AVAILABLE FOR OCR]'')" by simp
  show ?thesis
  proof (cases "m 1")
    case None
    have "page_no img \<noteq> Some 2" if "img \<in> set image_paths" for img
    proof
      assume "page_no img = Some 2"
      then have "page_no img = Some (int 1 + 1)" by simp
      from match_images_complete [OF mi that this] None show False by simp
    qed
    with None e f0 f1 f2 Inr show ?thesis
      by (simp add: r pages_build_response up)
  next
    case (Some img)
    with inv have "img \<in> set image_paths" "page_no img = Some 2" by auto
    moreover from this convert_pdf_to_images_Inr [OF Inr] have "img \<in> set (output_files w)"
      by blast
    ultimately show ?thesis using Some e f0 f1 f2
      by (auto simp: r pages_build_response up)
  qed
qed

lemma scan_world_images:
  "convert_pdf_to_images scan_world 200 = Inr [''page-1.jpg'', ''page-2.jpg'', ''page-3.jpg'']"
  by code_simp

text \<open>
  C7. For an accepted document of three pages where the first and the third have direct
  text of 20 or more trimmed characters and the second has none, and for which the
  rasterizer has left an image numbered 2: the request returns a response with
  \<^verbatim>\<open>ocr_used\<close> true, exactly one OCR task is submitted, the one for the second page, and
  the first and the third page are reported with their direct text as line 129 stores it,
  which is the embedded text itself when that has no surrounding whitespace.
\<close>

theorem one_scan_among_text:
  assumes "endswith (lower (filename w)) ''.pdf''" and "reader w = Inr [p1, p2, p3]"
    and "classify (direct_text p1) = Sufficient" and "direct_text p2 = []"
    and "classify (direct_text p3) = Sufficient"
    and "convert_pdf_to_images w 200 = Inr image_paths"
    and "img2 \<in> set image_paths" and "page_no img2 = Some 2"
  shows "\<exists>r img.
           extract_pdf w
             = (Inr r, [SaveUpload, OpenPdf, ExtractText 0, ExtractText 1, ExtractText 2,
                        RunPdftoppm, SubmitOcr 1 img])
         \<and> page_no img = Some 2
         \<and> ocr_used r
         \<and> length (pages r) = 3
         \<and> page_text (pages r ! 0) = direct_text p1
         \<and> page_text (pages r ! 1) = ocr_image w img 8
         \<and> page_text (pages r ! 2) = direct_text p3
         \<and> (\<forall>t. p1 = Returns t \<and> strip t = t \<longrightarrow> page_text (pages r ! 0) = t)
         \<and> (\<forall>t. p3 = Returns t \<and> strip t = t \<longrightarrow> page_text (pages r ! 2) = t)"
proof -
  from extract_pdf_success [OF assms(1,2,6)] obtain r where
    r: "fst (extract_pdf w) = Inr r" and len: "length (pages r) = 3"
    by (auto simp: pages_build_response)
  note cases = one_scan_cases [OF assms(1-5) r]
  from assms(6,7,8)
  have "\<not> (\<forall>imgs. convert_pdf_to_images w 200 = Inr imgs \<longrightarrow>
              (\<forall>img\<in>set imgs. page_no img \<noteq> Some 2))"
    by auto
  with cases obtain img where
    u: "ocr_used r" and t0: "page_text (pages r ! 0) = direct_text p1"
    and t2: "page_text (pages r ! 2) = direct_text p3"
    and no: "page_no img = Some 2"
    and ev: "snd (extract_pdf w)
                = [SaveUpload, OpenPdf, ExtractText 0, ExtractText 1, ExtractText 2, RunPdftoppm,
                   SubmitOcr 1 img]"
    and t1: "page_text (pages r ! 1) = ocr_image w img 8"
    by blast
  from r ev have e: "extract_pdf w
             = (Inr r, [SaveUpload, OpenPdf, ExtractText 0, ExtractText 1, ExtractText 2,
                        RunPdftoppm, SubmitOcr 1 img])"
    by (metis prod.collapse)
  have raw: "direct_text (Returns t) = t" if "strip t = t" for t
    using that by (simp add: direct_text_def strip_Nil)
  from t0 raw have k0: "\<forall>t. p1 = Returns t \<and> strip t = t \<longrightarrow> page_text (pages r ! 0) = t"
    by auto
  from t2 raw have k2: "\<forall>t. p3 = Returns t \<and> strip t = t \<longrightarrow> page_text (pages r ! 2) = t"
    by auto
  from e no u len t0 t1 t2 k0 k2 show ?thesis by blast
qed

theorem one_scan_among_text_witness:
  "endswith (lower (filename scan_world)) ''.pdf''
   \<and> reader scan_world = Inr [Returns ''Patient: A. Mensah, age 54 '', Returns [],
                              Returns ''eGFR 38 mL/min/1.73 m2'']
   \<and> classify (direct_text (Returns ''Patient: A. Mensah, age 54 '')) = Sufficient
   \<and> direct_text (Returns []) = []
   \<and> classify (direct_text (Returns ''eGFR 38 mL/min/1.73 m2'')) = Sufficient
   \<and> convert_pdf_to_images scan_world 200 = Inr [''page-1.jpg'', ''page-2.jpg'', ''page-3.jpg'']
   \<and> ''page-2.jpg'' \<in> set [''page-1.jpg'', ''page-2.jpg'', ''page-3.jpg'']
   \<and> page_no ''page-2.jpg'' = Some 2
   \<and> extract_pdf scan_world =
     (Inr \<lparr> status = ''success'', page_count = 3, ocr_used = True,
            pages = [\<lparr> page_number = 1, page_text = ''Patient: A. Mensah, age 54'' \<rparr>,
                     \<lparr> page_number = 2, page_text = ''Creatinine 1.9 mg/dL'' \<rparr>,
                     \<lparr> page_number = 3, page_text = ''eGFR 38 mL/min/1.73 m2'' \<rparr>],
            full_text = ''Patient: A. Mensah, age 54\<newline>\<newline>Creatinine 1.9 mg/dL\<newline>\<newline>eGFR 38 mL/min/1.73 m2'' \<rparr>,
      [SaveUpload, OpenPdf, ExtractText 0, ExtractText 1, ExtractText 2, RunPdftoppm,
       SubmitOcr 1 ''page-2.jpg''])"
proof -
  have h1: "endswith (lower (filename scan_world)) ''.pdf''" by (rule accepted_examples)
  have h2: "reader scan_world = Inr [Returns ''Patient: A. Mensah, age 54 '', Returns [],
                                     Returns ''eGFR 38 mL/min/1.73 m2'']"
    by (simp add: scan_world_def)
  have h3: "classify (direct_text (Returns ''Patient: A. Mensah, age 54 '')) = Sufficient"
    by code_simp
  have h4: "direct_text (Returns []) = []" by code_simp
  have h5: "classify (direct_text (Returns ''eGFR 38 mL/min/1.73 m2'')) = Sufficient"
    by code_simp
  note h6 = scan_world_images
  have h7: "''page-2.jpg'' \<in> set [''page-1.jpg'', ''page-2.jpg'', ''page-3.jpg'']" by simp
  have h8: "page_no ''page-2.jpg'' = Some 2" by code_simp
  from one_scan_among_text [OF h1 h2 h3 h4 h5 h6 h7 h8] obtain r img where
    "extract_pdf scan_world
       = (Inr r, [SaveUpload, OpenPdf, ExtractText 0, ExtractText 1, ExtractText 2,
                  RunPdftoppm, SubmitOcr 1 img])"
    by blast
  with scan_world_run h1 h2 h3 h4 h5 h6 h7 h8 show ?thesis by simp
qed

section \<open>A page whose text extraction raises\<close>

text \<open>
  C8. When \<^verbatim>\<open>extract_text\<close> raises on a page, the request runs exactly as it does when that
  page returns the empty string: same result, same work. The page's text is the empty
  string, it is classified \<open>NeedsOcr\<close> and it is among the pages sent to the OCR phase.
\<close>

theorem page_error_as_empty:
  assumes "reader w = Inr ps" and "i < length ps" and "ps ! i = Raises"
  shows "extract_pdf w = extract_pdf (w\<lparr>reader := Inr (ps[i := Returns []])\<rparr>)
       \<and> direct_text (ps ! i) = direct_text (Returns [])
       \<and> classify (direct_text (ps ! i)) = NeedsOcr
       \<and> i \<in> set (pages_needing_ocr (map direct_text ps))"
proof -
  have d: "direct_text (ps ! i) = direct_text (Returns [])"
    by (simp add: assms(3) direct_text_def strip_Nil)
  then have "map direct_text (ps[i := Returns []]) = map direct_text ps"
    by (simp add: map_update list_update_same_conv assms(2))
  from extract_pdf_reader_cong [OF assms(1) this]
  have "extract_pdf w = extract_pdf (w\<lparr>reader := Inr (ps[i := Returns []])\<rparr>)" by simp
  moreover have c: "classify (direct_text (ps ! i)) = NeedsOcr"
    by (simp add: assms(3) direct_text_def classify_def strip_Nil)
  moreover have "i \<in> set (pages_needing_ocr (map direct_text ps))"
    using c assms(2) by (simp add: set_pages_needing_ocr classify_def split: if_splits)
  ultimately show ?thesis using d by blast
qed

theorem page_error_as_empty_witness:
  "reader raising_page_world = Inr [Returns ''Patient: A. Mensah, age 54 '', Raises,
                                    Returns ''eGFR 38 mL/min/1.73 m2'']
   \<and> (1::nat) < length [Returns ''Patient: A. Mensah, age 54 '', Raises,
                         Returns ''eGFR 38 mL/min/1.73 m2'']
   \<and> [Returns ''Patient: A. Mensah, age 54 '', Raises,
        Returns ''eGFR 38 mL/min/1.73 m2''] ! 1 = Raises
   \<and> extract_pdf raising_page_world
       = extract_pdf (raising_page_world
           \<lparr>reader := Inr ([Returns ''Patient: A. Mensah, age 54 '', Raises,
                             Returns ''eGFR 38 mL/min/1.73 m2''] [1 := Returns []])\<rparr>)
   \<and> fst (extract_pdf raising_page_world) =
     Inr \<lparr> status = ''success'', page_count = 3, ocr_used = True,
            pages = [\<lparr> page_number = 1, page_text = ''Patient: A. Mensah, age 54'' \<rparr>,
                     \<lparr> page_number = 2, page_text = ''Creatinine 1.9 mg/dL'' \<rparr>,
                     \<lparr> page_number = 3, page_text = ''eGFR 38 mL/min/1.73 m2'' \<rparr>],
            full_text = ''Patient: A. Mensah, age 54\<newline>\<newline>Creatinine 1.9 mg/dL\<newline>\<newline>eGFR 38 mL/min/1.73 m2'' \<rparr>"
proof -
  have h1: "reader raising_page_world = Inr [Returns ''Patient: A. Mensah, age 54 '', Raises,
                                             Returns ''eGFR 38 mL/min/1.73 m2'']"
    by (simp add: raising_page_world_def)
  have h2: "(1::nat) < length [Returns ''Patient: A. Mensah, age 54 '', Raises,
                               Returns ''eGFR 38 mL/min/1.73 m2'']" by simp
  have h3: "[Returns ''Patient: A. Mensah, age 54 '', Raises,
             Returns ''eGFR 38 mL/min/1.73 m2''] ! 1 = Raises" by simp
  from page_error_as_empty [OF h1 h2 h3]
  have e: "extract_pdf raising_page_world
       = extract_pdf (raising_page_world
           \<lparr>reader := Inr ([Returns ''Patient: A. Mensah, age 54 '', Raises,
                             Returns ''eGFR 38 mL/min/1.73 m2''] [1 := Returns []])\<rparr>)"
    by blast
  have r: "fst (extract_pdf raising_page_world) =
     Inr \<lparr> status = ''success'', page_count = 3, ocr_used = True,
            pages = [\<lparr> page_number = 1, page_text = ''Patient: A. Mensah, age 54'' \<rparr>,
                     \<lparr> page_number = 2, page_text = ''Creatinine 1.9 mg/dL'' \<rparr>,
                     \<lparr> page_number = 3, page_text = ''eGFR 38 mL/min/1.73 m2'' \<rparr>],
            full_text = ''Patient: A. Mensah, age 54\<newline>\<newline>Creatinine 1.9 mg/dL\<newline>\<newline>eGFR 38 mL/min/1.73 m2'' \<rparr>"
    by (simp add: raising_page_world_run)
  from h1 h2 h3 e r show ?thesis by blast
qed

section \<open>Images numbered outside the document\<close>

text \<open>
  C10. An image whose parsed page number, less one, is not in the range from 0 to the page
  count less one is not stored in \<^verbatim>\<open>page_to_image\<close>, whose keys are all page indices of the
  document. The OCR phase then never writes outside the array of page texts: with
  \<^verbatim>\<open>IndexError\<close> as the outcome of a write out of range, it ends with an array of the same
  length, and every submitted task carries a page index of the document.
\<close>

theorem out_of_range_images_discarded:
  assumes "match_images (length ts) image_paths Map.empty = Inr page_to_image"
  shows "(\<forall>img\<in>set image_paths. \<forall>k.
            page_no img = Some k \<and> \<not> (0 \<le> k - 1 \<and> k - 1 < int (length ts))
              \<longrightarrow> img \<notin> ran page_to_image)
       \<and> dom page_to_image \<subseteq> {0..<length ts}
       \<and> (\<exists>final futures.
             ocr_phase w page_to_image (pages_needing_ocr ts) ts = Inr (final, futures)
           \<and> length final = length ts
           \<and> (\<forall>(idx, img)\<in>set futures. idx < length ts))"
proof -
  have inv: "k < length ts \<and> img \<in> set image_paths \<and> page_no img = Some (int k + 1)"
    if "page_to_image k = Some img" for k img
    using match_images_inv [OF assms that] by simp
  have 1: "img \<notin> ran page_to_image"
    if "img \<in> set image_paths" and "page_no img = Some k"
      and "\<not> (0 \<le> k - 1 \<and> k - 1 < int (length ts))" for img k
  proof
    assume "img \<in> ran page_to_image"
    then obtain j where "page_to_image j = Some img" by (auto simp: ran_def)
    from inv [OF this] that(2,3) show False by simp
  qed
  have 2: "dom page_to_image \<subseteq> {0..<length ts}" using inv by (auto simp: dom_def)
  from ocr_phase_result [of w page_to_image ts] obtain final where
    p: "ocr_phase w page_to_image (pages_needing_ocr ts) ts
          = Inr (final, concat (map (\<lambda>i. case page_to_image i of
                                            Some img \<Rightarrow> if img \<noteq> [] then [(i, img)] else []
                                          | None \<Rightarrow> []) (pages_needing_ocr ts)))"
    and lf: "length final = length ts"
    by blast
  have "\<forall>(idx, img)\<in>set (concat (map (\<lambda>i. case page_to_image i of
                                            Some img \<Rightarrow> if img \<noteq> [] then [(i, img)] else []
                                          | None \<Rightarrow> []) (pages_needing_ocr ts))). idx < length ts"
    by (auto simp: set_submitted set_pages_needing_ocr simp del: set_concat)
  with p lf have 3: "\<exists>final futures.
             ocr_phase w page_to_image (pages_needing_ocr ts) ts = Inr (final, futures)
           \<and> length final = length ts
           \<and> (\<forall>(idx, img)\<in>set futures. idx < length ts)" by blast
  from 1 2 3 show ?thesis by blast
qed

theorem out_of_range_images_discarded_witness:
  "match_images (length [''Patient: A. Mensah, age 54'', [], ''eGFR 38 mL/min/1.73 m2''])
       [''page-0.jpg'', ''page-2.jpg'', ''page-7.jpg''] Map.empty
     = Inr [1 \<mapsto> ''page-2.jpg'']
   \<and> page_no ''page-0.jpg'' = Some 0
   \<and> page_no ''page-7.jpg'' = Some 7
   \<and> ''page-0.jpg'' \<notin> ran [(1::nat) \<mapsto> ''page-2.jpg'']
   \<and> ''page-7.jpg'' \<notin> ran [(1::nat) \<mapsto> ''page-2.jpg'']"
proof -
  let ?ts = "[''Patient: A. Mensah, age 54'', [], ''eGFR 38 mL/min/1.73 m2'']"
  have p0: "page_no ''page-0.jpg'' = Some 0" by code_simp
  have p2: "page_no ''page-2.jpg'' = Some 2" by code_simp
  have p7: "page_no ''page-7.jpg'' = Some 7" by code_simp
  have h: "match_images (length ?ts) [''page-0.jpg'', ''page-2.jpg'', ''page-7.jpg''] Map.empty
             = Inr [1 \<mapsto> ''page-2.jpg'']"
    by (simp add: p0 p2 p7)
  note t = out_of_range_images_discarded [OF h, of scan_world]
  have o0: "\<not> (0 \<le> (0::int) - 1 \<and> (0::int) - 1 < int (length ?ts))" by simp
  have o7: "\<not> (0 \<le> (7::int) - 1 \<and> (7::int) - 1 < int (length ?ts))" by simp
  have m0: "''page-0.jpg'' \<in> set [''page-0.jpg'', ''page-2.jpg'', ''page-7.jpg'']" by simp
  have m7: "''page-7.jpg'' \<in> set [''page-0.jpg'', ''page-2.jpg'', ''page-7.jpg'']" by simp
  from t m0 p0 o0 have r0: "''page-0.jpg'' \<notin> ran [(1::nat) \<mapsto> ''page-2.jpg'']" by blast
  from t m7 p7 o7 have r7: "''page-7.jpg'' \<notin> ran [(1::nat) \<mapsto> ''page-2.jpg'']" by blast
  from h p0 p7 r0 r7 show ?thesis by blast
qed

end
